theory Spec2Isabelle
  imports Main "HOL-Library.AList" "HOL-Library.Extended_Nat" "HOL-Library.Multiset"
begin

section \<open>Data model (engine/types.js, engine/board.js)\<close>

text \<open>
  A cell \<open>{r, c}\<close> is the pair \<open>(r, c)\<close> of its row and column; a wall \<open>{r, c, o}\<close> is the
  triple of its anchor and orientation. The engine keys its sets and maps by the string
  \<open>"r,c"\<close>, which determines the two integers, so a key is modelled by the pair itself.
  A JavaScript \<open>Set\<close> is the list of its elements in insertion order, a \<open>Map\<close> the
  association list of its entries in insertion order.
\<close>

type_synonym cell = "int \<times> int"

datatype orient = H | V

type_synonym wall = "int \<times> int \<times> orient"

record Board =
  N :: int
  hWalls :: "cell list"
  vWalls :: "cell list"
  hOwners :: "(cell \<times> nat) list"
  vOwners :: "(cell \<times> nat) list"

text \<open>The four failures \<open>apply\<close> and \<open>placeWall\<close> throw: \<open>'Illegal pawn move'\<close>,
  \<open>'No walls left'\<close>, \<open>'Illegal wall placement'\<close>, \<open>'Wall blocks all paths'\<close>.\<close>

datatype error = IllegalMove | NoWallsLeft | IllegalPlacement | BlocksAllPaths

definition set_add :: "'a \<Rightarrow> 'a list \<Rightarrow> 'a list" where
  "set_add k xs = (if k \<in> set xs then xs else xs @ [k])"

definition set_delete :: "'a \<Rightarrow> 'a list \<Rightarrow> 'a list" where
  "set_delete k xs = removeAll k xs"

definition newBoard :: "int \<Rightarrow> Board" where
  "newBoard n = \<lparr>N = n, hWalls = [], vWalls = [], hOwners = [], vOwners = []\<rparr>"

definition hHalfOverlap :: "Board \<Rightarrow> int \<Rightarrow> int \<Rightarrow> bool" where
  "hHalfOverlap b r c = ((r, c - 1) \<in> set (hWalls b) \<or> (r, c + 1) \<in> set (hWalls b))"

definition vHalfOverlap :: "Board \<Rightarrow> int \<Rightarrow> int \<Rightarrow> bool" where
  "vHalfOverlap b r c = ((r - 1, c) \<in> set (vWalls b) \<or> (r + 1, c) \<in> set (vWalls b))"

definition wallLegal :: "Board \<Rightarrow> wall \<Rightarrow> bool" where
  "wallLegal b w = (case w of (r, c, ori) \<Rightarrow>
     if \<not> (0 \<le> r \<and> r < N b - 1 \<and> 0 \<le> c \<and> c < N b - 1) then False
     else if ori = H then
       (if (r, c) \<in> set (hWalls b) then False
        else if (r, c) \<in> set (vWalls b) then False
        else if hHalfOverlap b r c then False
        else True)
     else
       (if (r, c) \<in> set (vWalls b) then False
        else if (r, c) \<in> set (hWalls b) then False
        else if vHalfOverlap b r c then False
        else True))"

text \<open>\<open>placeWall(w, owner)\<close>: the owner is \<open>None\<close> when the argument is omitted; the
  thrown error is the left injection.\<close>

definition placeWall :: "Board \<Rightarrow> wall \<Rightarrow> nat option \<Rightarrow> error + Board" where
  "placeWall b w owner =
     (if \<not> wallLegal b w then Inl IllegalPlacement
      else case w of (r, c, ori) \<Rightarrow>
        if ori = H then
          Inr (b\<lparr>hWalls := set_add (r, c) (hWalls b),
                    hOwners := (case owner of None \<Rightarrow> hOwners b
                             | Some p \<Rightarrow> AList.update (r, c) p (hOwners b))\<rparr>)
        else
          Inr (b\<lparr>vWalls := set_add (r, c) (vWalls b),
                    vOwners := (case owner of None \<Rightarrow> vOwners b
                             | Some p \<Rightarrow> AList.update (r, c) p (vOwners b))\<rparr>))"

definition removeWall :: "Board \<Rightarrow> wall \<Rightarrow> Board" where
  "removeWall b w = (case w of (r, c, ori) \<Rightarrow>
     if ori = H then
       b\<lparr>hWalls := set_delete (r, c) (hWalls b), hOwners := AList.delete (r, c) (hOwners b)\<rparr>
     else
       b\<lparr>vWalls := set_delete (r, c) (vWalls b), vOwners := AList.delete (r, c) (vOwners b)\<rparr>)"

definition blockedEdge :: "Board \<Rightarrow> cell \<Rightarrow> cell \<Rightarrow> bool" where
  "blockedEdge b p q = (case p of (ar, ac) \<Rightarrow> case q of (br, bc) \<Rightarrow>
     if ar = br then
       (if \<bar>ac - bc\<bar> \<noteq> 1 then True
        else let cmin = min ac bc in
          if (ar, cmin) \<in> set (vWalls b) \<or> (ar - 1, cmin) \<in> set (vWalls b) then True
          else False)
     else if ac = bc then
       (if \<bar>ar - br\<bar> \<noteq> 1 then True
        else let rmin = min ar br in
          if (rmin, ac) \<in> set (hWalls b) \<or> (rmin, ac - 1) \<in> set (hWalls b) then True
          else False)
     else True)"

definition neighbors :: "Board \<Rightarrow> cell \<Rightarrow> cell list" where
  "neighbors b p = (case p of (pr, pc) \<Rightarrow>
     let cand = (if pr > 0 then [(pr - 1, pc)] else [])
              @ (if pr + 1 < N b then [(pr + 1, pc)] else [])
              @ (if pc > 0 then [(pr, pc - 1)] else [])
              @ (if pc + 1 < N b then [(pr, pc + 1)] else [])
     in filter (\<lambda>q. \<not> blockedEdge b p q) cand)"

subsection \<open>Breadth-first search\<close>

text \<open>
  The inner \<open>for\<close> loop of \<open>bfsDistToGoal\<close>: every neighbour not yet seen is added to
  \<open>seen\<close> and pushed on the queue with distance \<open>d + 1\<close>.
\<close>

fun bfs_push :: "nat \<Rightarrow> cell list \<Rightarrow> cell list \<Rightarrow> (cell \<times> nat) list
    \<Rightarrow> cell list \<times> (cell \<times> nat) list" where
  "bfs_push d [] seen q = (seen, q)"
| "bfs_push d (v # vs) seen q =
     (if v \<in> set seen then bfs_push d vs seen q
      else bfs_push d vs (set_add v seen) (q @ [(v, d + 1)]))"

text \<open>
  The cells a search can ever touch: the bounding box of the board and of the cells it
  already holds. It only serves the termination proof of the \<open>while\<close> loops.
\<close>

definition box :: "Board \<Rightarrow> cell set \<Rightarrow> cell set" where
  "box b S = (let S' = S \<union> {(0, 0), (N b - 1, N b - 1)} in
     {p. (\<exists>x \<in> S'. fst x \<le> fst p) \<and> (\<exists>x \<in> S'. fst p \<le> fst x) \<and>
         (\<exists>x \<in> S'. snd x \<le> snd p) \<and> (\<exists>x \<in> S'. snd p \<le> snd x)})"

lemma box_extensive: "S \<subseteq> box b S"
  by (auto simp: box_def Let_def)

lemma box_mono: "S \<subseteq> T \<Longrightarrow> box b S \<subseteq> box b T"
  unfolding box_def Let_def by (intro Collect_mono conj_mono) blast+

lemma box_absorb: "T \<subseteq> box b S \<Longrightarrow> box b (S \<union> T) \<subseteq> box b S"
proof
  fix p assume T: "T \<subseteq> box b S" and p: "p \<in> box b (S \<union> T)"
  let ?B = "S \<union> {(0, 0), (N b - 1, N b - 1)}"
  let ?C = "(S \<union> T) \<union> {(0, 0), (N b - 1, N b - 1)}"
  have Tb: "(\<exists>y \<in> ?B. fst y \<le> fst t) \<and> (\<exists>y \<in> ?B. fst t \<le> fst y) \<and>
            (\<exists>y \<in> ?B. snd y \<le> snd t) \<and> (\<exists>y \<in> ?B. snd t \<le> snd y)" if "t \<in> T" for t
  proof -
    from that T have "t \<in> box b S" by blast
    then show ?thesis unfolding box_def Let_def mem_Collect_eq .
  qed
  have Cb: "(\<exists>y \<in> ?B. fst y \<le> fst t) \<and> (\<exists>y \<in> ?B. fst t \<le> fst y) \<and>
            (\<exists>y \<in> ?B. snd y \<le> snd t) \<and> (\<exists>y \<in> ?B. snd t \<le> snd y)" if "t \<in> ?C" for t
  proof (cases "t \<in> T")
    case True then show ?thesis by (rule Tb)
  next
    case False
    with that have "t \<in> ?B" by blast
    then show ?thesis by (intro conjI bexI[of _ t]) simp_all
  qed
  from p have P: "(\<exists>x \<in> ?C. fst x \<le> fst p) \<and> (\<exists>x \<in> ?C. fst p \<le> fst x) \<and>
            (\<exists>x \<in> ?C. snd x \<le> snd p) \<and> (\<exists>x \<in> ?C. snd p \<le> snd x)"
    unfolding box_def Let_def mem_Collect_eq .
  have 1: "\<exists>y \<in> ?B. fst y \<le> fst p"
  proof -
    from P obtain x where "x \<in> ?C" "fst x \<le> fst p" by blast
    moreover from Cb[OF this(1)] obtain y where "y \<in> ?B" "fst y \<le> fst x" by blast
    ultimately show ?thesis by (intro bexI[of _ y]) simp_all
  qed
  have 2: "\<exists>y \<in> ?B. fst p \<le> fst y"
  proof -
    from P obtain x where "x \<in> ?C" "fst p \<le> fst x" by blast
    moreover from Cb[OF this(1)] obtain y where "y \<in> ?B" "fst x \<le> fst y" by blast
    ultimately show ?thesis by (intro bexI[of _ y]) simp_all
  qed
  have 3: "\<exists>y \<in> ?B. snd y \<le> snd p"
  proof -
    from P obtain x where "x \<in> ?C" "snd x \<le> snd p" by blast
    moreover from Cb[OF this(1)] obtain y where "y \<in> ?B" "snd y \<le> snd x" by blast
    ultimately show ?thesis by (intro bexI[of _ y]) simp_all
  qed
  have 4: "\<exists>y \<in> ?B. snd p \<le> snd y"
  proof -
    from P obtain x where "x \<in> ?C" "snd p \<le> snd x" by blast
    moreover from Cb[OF this(1)] obtain y where "y \<in> ?B" "snd x \<le> snd y" by blast
    ultimately show ?thesis by (intro bexI[of _ y]) simp_all
  qed
  show "p \<in> box b S"
    unfolding box_def Let_def mem_Collect_eq using 1 2 3 4 by (intro conjI)
qed

lemma finite_box: "finite S \<Longrightarrow> finite (box b S)"
proof -
  assume fin: "finite S"
  let ?S = "S \<union> {(0, 0), (N b - 1, N b - 1)}"
  have fS: "finite ?S" using fin by simp
  have "box b S \<subseteq> {Min (fst ` ?S) .. Max (fst ` ?S)} \<times> {Min (snd ` ?S) .. Max (snd ` ?S)}"
  proof
    fix p assume "p \<in> box b S"
    then obtain x1 x2 x3 x4 where x: "x1 \<in> ?S" "fst x1 \<le> fst p" "x2 \<in> ?S" "fst p \<le> fst x2"
      "x3 \<in> ?S" "snd x3 \<le> snd p" "x4 \<in> ?S" "snd p \<le> snd x4"
      unfolding box_def Let_def by blast
    have fin2: "finite (fst ` ?S)" "finite (snd ` ?S)" using fS by simp_all
    have "Min (fst ` ?S) \<le> fst x1" by (rule Min_le[OF fin2(1)]) (use x in blast)
    moreover have "fst x2 \<le> Max (fst ` ?S)" by (rule Max_ge[OF fin2(1)]) (use x in blast)
    moreover have "Min (snd ` ?S) \<le> snd x3" by (rule Min_le[OF fin2(2)]) (use x in blast)
    moreover have "snd x4 \<le> Max (snd ` ?S)" by (rule Max_ge[OF fin2(2)]) (use x in blast)
    ultimately have "Min (fst ` ?S) \<le> fst p \<and> fst p \<le> Max (fst ` ?S) \<and>
        Min (snd ` ?S) \<le> snd p \<and> snd p \<le> Max (snd ` ?S)"
      using x(2,4,6,8) by linarith
    then show "p \<in> {Min (fst ` ?S) .. Max (fst ` ?S)} \<times> {Min (snd ` ?S) .. Max (snd ` ?S)}"
      by (simp add: mem_Times_iff)
  qed
  then show ?thesis by (rule finite_subset) simp
qed

lemma neighbors_step:
  "q \<in> set (neighbors b p) \<Longrightarrow>
     (q = (fst p - 1, snd p) \<and> fst p > 0) \<or> (q = (fst p + 1, snd p) \<and> fst p + 1 < N b) \<or>
     (q = (fst p, snd p - 1) \<and> snd p > 0) \<or> (q = (fst p, snd p + 1) \<and> snd p + 1 < N b)"
  by (cases p) (auto simp: neighbors_def Let_def split: if_splits)

lemma box_I:
  "\<lbrakk>x1 \<in> S \<or> x1 = (0,0) \<or> x1 = (N b - 1, N b - 1); fst x1 \<le> fst p;
    x2 \<in> S \<or> x2 = (0,0) \<or> x2 = (N b - 1, N b - 1); fst p \<le> fst x2;
    x3 \<in> S \<or> x3 = (0,0) \<or> x3 = (N b - 1, N b - 1); snd x3 \<le> snd p;
    x4 \<in> S \<or> x4 = (0,0) \<or> x4 = (N b - 1, N b - 1); snd p \<le> snd x4\<rbrakk> \<Longrightarrow> p \<in> box b S"
  unfolding box_def Let_def mem_Collect_eq by blast

lemma neighbors_in_box: "p \<in> S \<Longrightarrow> set (neighbors b p) \<subseteq> box b S"
proof
  fix q assume p: "p \<in> S" and q: "q \<in> set (neighbors b p)"
  from neighbors_step[OF q] show "q \<in> box b S"
  proof (elim disjE conjE)
    assume "q = (fst p - 1, snd p)" "fst p > 0"
    then show ?thesis
      using p by (intro box_I[of "(0,0)" _ _ _ p p p]) auto
  next
    assume "q = (fst p + 1, snd p)" "fst p + 1 < N b"
    then show ?thesis
      using p by (intro box_I[of p _ _ _ "(N b - 1, N b - 1)" p p]) auto
  next
    assume "q = (fst p, snd p - 1)" "snd p > 0"
    then show ?thesis
      using p by (intro box_I[of p _ _ _ p "(0,0)" p]) auto
  next
    assume "q = (fst p, snd p + 1)" "snd p + 1 < N b"
    then show ?thesis
      using p by (intro box_I[of p _ _ _ p p "(N b - 1, N b - 1)"]) auto
  qed
qed

lemma bfs_push_seen_mono: "bfs_push d vs seen q = (seen', q') \<Longrightarrow> set seen \<subseteq> set seen'"
  by (induction d vs seen q rule: bfs_push.induct) (auto simp: set_add_def split: if_splits)

lemma bfs_push_cells:
  "bfs_push d vs seen q = (seen', q') \<Longrightarrow>
     set seen' \<union> fst ` set q' \<subseteq> set seen \<union> fst ` set q \<union> set vs"
  by (induction d vs seen q rule: bfs_push.induct) (auto simp: set_add_def split: if_splits)

lemma bfs_push_progress:
  "bfs_push d vs seen q = (seen', q') \<Longrightarrow> (seen' = seen \<and> q' = q) \<or> set seen \<subset> set seen'"
proof (induction d vs seen q rule: bfs_push.induct)
  case (1 d seen q)
  then show ?case by simp
next
  case (2 d v vs seen q)
  show ?case
  proof (cases "v \<in> set seen")
    case True
    with 2 show ?thesis by simp
  next
    case False
    with 2(3) have eq: "bfs_push d vs (set_add v seen) (q @ [(v, d + 1)]) = (seen', q')" by simp
    from bfs_push_seen_mono[OF eq] have "set (set_add v seen) \<subseteq> set seen'" .
    with False have "v \<in> set seen'" "set seen \<subseteq> set seen'" by (auto simp: set_add_def)
    with False show ?thesis by blast
  qed
qed

function bfs_loop :: "Board \<Rightarrow> int list \<Rightarrow> cell list \<Rightarrow> (cell \<times> nat) list \<Rightarrow> nat option" where
  "bfs_loop b goalRows seen [] = None"
| "bfs_loop b goalRows seen ((u, d) # q) =
     (if fst u \<in> set goalRows then Some d
      else case bfs_push d (neighbors b u) seen q of
        (seen', q') \<Rightarrow> bfs_loop b goalRows seen' q')"
  by pat_completeness auto
lemma bfs_loop_decreases:
  assumes eq: "bfs_push d (neighbors b u) seen q = (seen', q')"
  shows "((b, goalRows, seen', q'), (b, goalRows, seen, (u, d) # q))
       \<in> inv_image (less_than <*lex*> less_than)
           (\<lambda>(b, g, seen, q). (card (box b (set seen \<union> fst ` set q) - set seen), length q))"
proof -
  let ?S = "set seen \<union> fst ` set ((u, d) # q)"
  let ?S' = "set seen' \<union> fst ` set q'"
  have nb: "set (neighbors b u) \<subseteq> box b ?S" by (rule neighbors_in_box) simp
  have "?S' \<subseteq> ?S \<union> set (neighbors b u)" using bfs_push_cells[OF eq] by auto
  then have "box b ?S' \<subseteq> box b (?S \<union> set (neighbors b u))" by (rule box_mono)
  also have "\<dots> \<subseteq> box b ?S" using nb by (rule box_absorb)
  finally have sub: "box b ?S' \<subseteq> box b ?S" .
  have fin: "finite (box b ?S - set seen)" by (intro finite_Diff finite_box) simp
  have mono: "set seen \<subseteq> set seen'" by (rule bfs_push_seen_mono[OF eq])
  have le: "box b ?S' - set seen' \<subseteq> box b ?S - set seen" using sub mono by blast
  from bfs_push_progress[OF eq] show ?thesis
  proof
    assume "seen' = seen \<and> q' = q"
    moreover have "card (box b ?S' - set seen') \<le> card (box b ?S - set seen)"
      using fin le by (rule card_mono)
    ultimately show ?thesis by (auto simp: le_less)
  next
    assume strict: "set seen \<subset> set seen'"
    then obtain v where v: "v \<in> set seen'" "v \<notin> set seen" by blast
    have "v \<in> ?S \<union> set (neighbors b u)" using bfs_push_cells[OF eq] v by auto
    then have "v \<in> box b ?S" using nb box_extensive[of ?S b] by blast
    with v le have "box b ?S' - set seen' \<subset> box b ?S - set seen" by blast
    with fin have "card (box b ?S' - set seen') < card (box b ?S - set seen)"
      by (rule psubset_card_mono)
    then show ?thesis by simp
  qed
qed

termination bfs_loop
  apply (relation "inv_image (less_than <*lex*> less_than)
    (\<lambda>(b, g, seen, q). (card (box b (set seen \<union> fst ` set q) - set seen), length q))")
   apply (intro wf_inv_image wf_lex_prod wf_less_than)
  apply (rule bfs_loop_decreases)
  apply simp
  done

definition bfsDistToGoal :: "Board \<Rightarrow> cell \<Rightarrow> int list \<Rightarrow> nat option" where
  "bfsDistToGoal b start goalRows = bfs_loop b goalRows [start] [(start, 0)]"

definition pathExistsFor :: "Board \<Rightarrow> cell \<Rightarrow> int list \<Rightarrow> bool" where
  "pathExistsFor b start goalRows = (bfsDistToGoal b start goalRows \<noteq> None)"

section \<open>Game state (engine/gamestate.js)\<close>

text \<open>
  A snapshot holds deep copies of the pawns, the two wall sets, the entries of the two
  owner maps, the walls-left counters and the side to move. The two-element arrays
  \<open>pawns\<close> and \<open>wallsLeft\<close> are lists indexed by the player, 0 or 1.
\<close>

record Snapshot =
  snap_pawns :: "cell list"
  snap_h :: "cell list"
  snap_v :: "cell list"
  snap_hOwn :: "(cell \<times> nat) list"
  snap_vOwn :: "(cell \<times> nat) list"
  snap_wl :: "int list"
  snap_tm :: nat

record GameState =
  board :: Board
  gsN :: int
  pawns :: "cell list"
  wallsLeft :: "int list"
  toMove :: nat
  history :: "Snapshot list"

datatype move = PAWN cell | WALL wall

text \<open>
  What a method of the game state does to its caller: it returns a value, or throws, in
  both cases leaving a state behind; \<open>Diverge\<close> stands for a call that never returns.
\<close>

datatype 'a result = Return 'a GameState | Throw error GameState | Diverge

definition newGameState :: "int \<Rightarrow> GameState" where
  "newGameState n = \<lparr>board = newBoard n, gsN = n,
     pawns = [(0, n div 2), (n - 1, n div 2)], wallsLeft = [10, 10],
     toMove = 0, history = []\<rparr>"

definition goalRows :: "GameState \<Rightarrow> nat \<Rightarrow> int list" where
  "goalRows s p = (if p = 0 then [gsN s - 1] else [0])"

definition inBounds :: "GameState \<Rightarrow> cell \<Rightarrow> bool" where
  "inBounds s p = (0 \<le> fst p \<and> fst p < gsN s \<and> 0 \<le> snd p \<and> snd p < gsN s)"

text \<open>The \<open>dedup\<close> loop at the end of \<open>legalPawnMoves\<close>: first occurrences, in order.\<close>

fun uniq :: "cell list \<Rightarrow> cell list \<Rightarrow> cell list" where
  "uniq seen [] = []"
| "uniq seen (m # ms) = (if m \<in> set seen then uniq seen ms else m # uniq (set_add m seen) ms)"

text \<open>The branch of \<open>legalPawnMoves\<close> taken for the neighbour that holds the opponent.\<close>

definition jumpMoves :: "GameState \<Rightarrow> cell \<Rightarrow> cell \<Rightarrow> cell list" where
  "jumpMoves s myp opp =
     (let dr = fst opp - fst myp; dc = snd opp - snd myp;
          dest = (fst opp + dr, snd opp + dc)
      in if inBounds s dest \<and> \<not> blockedEdge (board s) opp dest then [dest]
         else concat (map (\<lambda>d.
                let side = (fst opp + fst d, snd opp + snd d)
                in if \<not> inBounds s side then []
                   else if \<not> blockedEdge (board s) opp side \<and> \<not> blockedEdge (board s) myp opp
                        then [side] else [])
              [(-1, 0), (1, 0), (0, -1), (0, 1)]))"

definition legalPawnMoves :: "GameState \<Rightarrow> cell list" where
  "legalPawnMoves s =
     (let me = toMove s; you = 1 - me;
          myp = pawns s ! me; opp = pawns s ! you;
          nbrs = neighbors (board s) myp;
          out = concat (map (\<lambda>q. if q = opp then jumpMoves s myp opp else [q]) nbrs)
      in uniq [] out)"

text \<open>
  \<open>legalWallMoves\<close> probes every candidate on the board itself: it places the wall
  without an owner, asks for both paths and removes the wall again, so the loop threads
  the state.
\<close>

definition wallCandidates :: "int \<Rightarrow> wall list" where
  "wallCandidates n = concat (map (\<lambda>r. concat (map (\<lambda>c. [(r, c, H), (r, c, V)]) [0..n - 2])) [0..n - 2])"

definition bothPaths :: "Board \<Rightarrow> GameState \<Rightarrow> bool" where
  "bothPaths b s = (pathExistsFor b (pawns s ! 0) (goalRows s 0) \<and>
                    pathExistsFor b (pawns s ! 1) (goalRows s 1))"

fun legalWallMoves_loop :: "wall list \<Rightarrow> wall list \<Rightarrow> GameState \<Rightarrow> wall list result" where
  "legalWallMoves_loop [] cand s = Return cand s"
| "legalWallMoves_loop (w # ws) cand s =
     (if \<not> wallLegal (board s) w then legalWallMoves_loop ws cand s
      else case placeWall (board s) w None of
        Inl e \<Rightarrow> Throw e s
      | Inr b1 \<Rightarrow>
          let ok = bothPaths b1 s;
              s1 = s\<lparr>board := removeWall b1 w\<rparr>
          in legalWallMoves_loop ws (if ok then cand @ [w] else cand) s1)"

definition legalWallMoves :: "GameState \<Rightarrow> wall list result" where
  "legalWallMoves s =
     (let me = toMove s in
      if wallsLeft s ! me \<le> 0 then Return [] s
      else legalWallMoves_loop (wallCandidates (gsN s)) [] s)"

definition legalMoves :: "GameState \<Rightarrow> move list result" where
  "legalMoves s =
     (let ps = legalPawnMoves s in
      case legalWallMoves s of
        Return ws s1 \<Rightarrow> Return (map PAWN ps @ map WALL ws) s1
      | Throw e s1 \<Rightarrow> Throw e s1
      | Diverge \<Rightarrow> Diverge)"

definition snapshot :: "GameState \<Rightarrow> Snapshot" where
  "snapshot s = \<lparr>snap_pawns = pawns s, snap_h = hWalls (board s), snap_v = vWalls (board s),
     snap_hOwn = hOwners (board s), snap_vOwn = vOwners (board s),
     snap_wl = wallsLeft s, snap_tm = toMove s\<rparr>"

definition restore :: "GameState \<Rightarrow> Snapshot \<Rightarrow> GameState" where
  "restore s x = s\<lparr>pawns := snap_pawns x,
     board := (board s)\<lparr>hWalls := snap_h x, vWalls := snap_v x,
                         hOwners := snap_hOwn x, vOwners := snap_vOwn x\<rparr>,
     wallsLeft := snap_wl x, toMove := snap_tm x\<rparr>"

text \<open>\<open>apply(mv, recordHistory)\<close>; the snapshot is pushed before any check.\<close>

definition applyMove :: "GameState \<Rightarrow> move \<Rightarrow> bool \<Rightarrow> unit result" where
  "applyMove s0 mv recordHistory =
     (let s = (if recordHistory then s0\<lparr>history := history s0 @ [snapshot s0]\<rparr> else s0) in
      case mv of
        PAWN dest \<Rightarrow>
          if \<not> (dest \<in> set (legalPawnMoves s)) then Throw IllegalMove s
          else Return () (s\<lparr>pawns := (pawns s)[toMove s := dest], toMove := 1 - toMove s\<rparr>)
      | WALL w \<Rightarrow>
          let me = toMove s in
          if wallsLeft s ! me \<le> 0 then Throw NoWallsLeft s
          else if \<not> wallLegal (board s) w then Throw IllegalPlacement s
          else case placeWall (board s) w (Some me) of
            Inl e \<Rightarrow> Throw e s
          | Inr b1 \<Rightarrow>
              if \<not> bothPaths b1 s then Throw BlocksAllPaths (s\<lparr>board := removeWall b1 w\<rparr>)
              else Return () (s\<lparr>board := b1,
                     wallsLeft := (wallsLeft s)[me := wallsLeft s ! me - 1],
                     toMove := 1 - toMove s\<rparr>))"

definition undo :: "GameState \<Rightarrow> GameState" where
  "undo s = (if history s = [] then s
             else restore (s\<lparr>history := butlast (history s)\<rparr>) (last (history s)))"

definition winner :: "GameState \<Rightarrow> nat option" where
  "winner s = (if fst (pawns s ! 0) = gsN s - 1 then Some 0
               else if fst (pawns s ! 1) = 0 then Some 1 else None)"

definition evaluate :: "GameState \<Rightarrow> nat \<Rightarrow> rat" where
  "evaluate s me =
     (let you = 1 - me;
          dMe = bfsDistToGoal (board s) (pawns s ! me) (goalRows s me);
          dYou = bfsDistToGoal (board s) (pawns s ! you) (goalRows s you)
      in case (dMe, dYou) of
           (Some a, Some b) \<Rightarrow>
             (of_nat b - of_nat a) * 10 + of_int (wallsLeft s ! me - wallsLeft s ! you) * (1 / 2)
         | _ \<Rightarrow> 0)"

subsection \<open>Shortest path with its first step (\<open>bfsNextStepToGoal\<close>)\<close>

fun bfsn_push :: "cell \<Rightarrow> cell list \<Rightarrow> cell list \<Rightarrow> cell list \<Rightarrow> (cell \<rightharpoonup> cell)
    \<Rightarrow> cell list \<times> cell list \<times> (cell \<rightharpoonup> cell)" where
  "bfsn_push u [] seen q parent = (seen, q, parent)"
| "bfsn_push u (v # vs) seen q parent =
     (if v \<in> set seen then bfsn_push u vs seen q parent
      else bfsn_push u vs (set_add v seen) (q @ [v]) (parent(v \<mapsto> u)))"

lemma bfsn_push_seen_mono:
  "bfsn_push u vs seen q parent = (seen', q', parent') \<Longrightarrow> set seen \<subseteq> set seen'"
  by (induction u vs seen q parent rule: bfsn_push.induct)
     (auto simp: set_add_def split: if_splits)

lemma bfsn_push_cells:
  "bfsn_push u vs seen q parent = (seen', q', parent') \<Longrightarrow>
     set seen' \<union> set q' \<subseteq> set seen \<union> set q \<union> set vs"
  by (induction u vs seen q parent rule: bfsn_push.induct)
     (auto simp: set_add_def split: if_splits)

lemma bfsn_push_progress:
  "bfsn_push u vs seen q parent = (seen', q', parent') \<Longrightarrow>
     (seen' = seen \<and> q' = q) \<or> set seen \<subset> set seen'"
proof (induction u vs seen q parent rule: bfsn_push.induct)
  case (1 u seen q parent)
  then show ?case by simp
next
  case (2 u v vs seen q parent)
  show ?case
  proof (cases "v \<in> set seen")
    case True
    with 2 show ?thesis by simp
  next
    case False
    with 2(3) have eq: "bfsn_push u vs (set_add v seen) (q @ [v]) (parent(v \<mapsto> u)) = (seen', q', parent')"
      by simp
    from bfsn_push_seen_mono[OF eq] have "set (set_add v seen) \<subseteq> set seen'" .
    with False have "v \<in> set seen'" "set seen \<subseteq> set seen'" by (auto simp: set_add_def)
    with False show ?thesis by blast
  qed
qed

lemma bfsn_loop_decreases:
  assumes eq: "bfsn_push u (neighbors b u) seen q parent = (seen', q', parent')"
  shows "((b, goals, seen', q', parent'), (b, goals, seen, u # q, parent))
       \<in> inv_image (less_than <*lex*> less_than)
           (\<lambda>(b, g, seen, q, parent). (card (box b (set seen \<union> set q) - set seen), length q))"
proof -
  let ?S = "set seen \<union> set (u # q)"
  let ?S' = "set seen' \<union> set q'"
  have nb: "set (neighbors b u) \<subseteq> box b ?S" by (rule neighbors_in_box) simp
  have "?S' \<subseteq> ?S \<union> set (neighbors b u)" using bfsn_push_cells[OF eq] by auto
  then have "box b ?S' \<subseteq> box b (?S \<union> set (neighbors b u))" by (rule box_mono)
  also have "\<dots> \<subseteq> box b ?S" using nb by (rule box_absorb)
  finally have sub: "box b ?S' \<subseteq> box b ?S" .
  have fin: "finite (box b ?S - set seen)" by (intro finite_Diff finite_box) simp
  have mono: "set seen \<subseteq> set seen'" by (rule bfsn_push_seen_mono[OF eq])
  have le: "box b ?S' - set seen' \<subseteq> box b ?S - set seen" using sub mono by blast
  from bfsn_push_progress[OF eq] show ?thesis
  proof
    assume "seen' = seen \<and> q' = q"
    moreover have "card (box b ?S' - set seen') \<le> card (box b ?S - set seen)"
      using fin le by (rule card_mono)
    ultimately show ?thesis by (auto simp: le_less)
  next
    assume strict: "set seen \<subset> set seen'"
    then obtain v where v: "v \<in> set seen'" "v \<notin> set seen" by blast
    have "v \<in> ?S \<union> set (neighbors b u)" using bfsn_push_cells[OF eq] v by auto
    then have "v \<in> box b ?S" using nb box_extensive[of ?S b] by blast
    with v le have "box b ?S' - set seen' \<subset> box b ?S - set seen" by blast
    with fin have "card (box b ?S' - set seen') < card (box b ?S - set seen)"
      by (rule psubset_card_mono)
    then show ?thesis by simp
  qed
qed

text \<open>
  The \<open>while\<close> loop of \<open>bfsNextStepToGoal\<close> up to the moment it dequeues a goal cell:
  the result is that cell and the parent map, or \<open>None\<close> when the queue runs empty.
\<close>

function bfsn_loop :: "Board \<Rightarrow> int list \<Rightarrow> cell list \<Rightarrow> cell list \<Rightarrow> (cell \<rightharpoonup> cell)
    \<Rightarrow> (cell \<times> (cell \<rightharpoonup> cell)) option" where
  "bfsn_loop b goals seen [] parent = None"
| "bfsn_loop b goals seen (u # q) parent =
     (if fst u \<in> set goals then Some (u, parent)
      else case bfsn_push u (neighbors b u) seen q parent of
        (seen', q', parent') \<Rightarrow> bfsn_loop b goals seen' q' parent')"
  by pat_completeness auto
termination bfsn_loop
  apply (relation "inv_image (less_than <*lex*> less_than)
    (\<lambda>(b, g, seen, q, parent). (card (box b (set seen \<union> set q) - set seen), length q))")
   apply (intro wf_inv_image wf_lex_prod wf_less_than)
  apply (rule bfsn_loop_decreases)
  apply simp
  done

text \<open>
  The two loops that walk the parent map back from the goal cell. Nothing in their text
  bounds them, so they are partial: \<open>None\<close> is a walk that never ends.
\<close>

partial_function (option) firstStep :: "(cell \<rightharpoonup> cell) \<Rightarrow> cell \<Rightarrow> cell \<Rightarrow> cell option" where
  "firstStep parent start cur =
     (case parent cur of
        None \<Rightarrow> Some cur
      | Some prev \<Rightarrow> if prev = start then Some cur else firstStep parent start prev)"

partial_function (option) reconstructDist :: "(cell \<rightharpoonup> cell) \<Rightarrow> cell \<Rightarrow> nat \<Rightarrow> nat option" where
  "reconstructDist parent cur d =
     (case parent cur of
        None \<Rightarrow> Some d
      | Some p \<Rightarrow> reconstructDist parent p (d + 1))"

text \<open>The result \<open>{dist, next}\<close> is a pair; \<open>null\<close> is \<open>None\<close>.\<close>

definition bfsNextStepToGoal :: "Board \<Rightarrow> cell \<Rightarrow> int list \<Rightarrow> (nat option \<times> cell option) option" where
  "bfsNextStepToGoal b start goals =
     (case bfsn_loop b goals [start] [start] Map.empty of
        None \<Rightarrow> Some (None, None)
      | Some (u, parent) \<Rightarrow>
          (case firstStep parent start u of
             None \<Rightarrow> None
           | Some cur \<Rightarrow>
               (case reconstructDist parent u 0 of
                  None \<Rightarrow> None
                | Some n \<Rightarrow> Some (Some n, Some (if cur = start then start else cur)))))"

definition shortestPathNext :: "GameState \<Rightarrow> nat \<Rightarrow> (nat option \<times> cell option) option" where
  "shortestPathNext s me = bfsNextStepToGoal (board s) (pawns s ! me) (goalRows s me)"

declare firstStep.simps [code]
declare reconstructDist.simps [code]

subsection \<open>The binary heap \<open>MinPQ\<close>\<close>

text \<open>The array \<open>_a\<close> of pairs \<open>[key, priority]\<close>; priorities are numbers that may be
  \<open>Infinity\<close>.\<close>

type_synonym 'k pq = "('k \<times> enat) list"

definition swap :: "'a list \<Rightarrow> nat \<Rightarrow> nat \<Rightarrow> 'a list" where
  "swap a i j = a[i := a ! j, j := a ! i]"

function siftUp :: "'k pq \<Rightarrow> nat \<Rightarrow> 'k pq" where
  "siftUp a i =
     (if i > 0 then
        (let p = (i - 1) div 2 in
         if snd (a ! p) \<le> snd (a ! i) then a
         else siftUp (swap a p i) p)
      else a)"
  by pat_completeness auto
termination siftUp
  by (relation "measure (\<lambda>(a, i). i)") auto

declare siftUp.simps [simp del]

definition siftDown_pick :: "'k pq \<Rightarrow> nat \<Rightarrow> nat" where
  "siftDown_pick a i =
     (let n = length a; l = i * 2 + 1; r = l + 1;
          s = i;
          s = (if l < n \<and> snd (a ! l) < snd (a ! s) then l else s);
          s = (if r < n \<and> snd (a ! r) < snd (a ! s) then r else s)
      in s)"

lemma siftDown_pick_range: "siftDown_pick a i \<noteq> i \<Longrightarrow> i < siftDown_pick a i \<and> siftDown_pick a i < length a"
  by (auto simp: siftDown_pick_def Let_def split: if_splits)

lemma length_swap [simp]: "length (swap a i j) = length a"
  by (simp add: swap_def)

function siftDown :: "'k pq \<Rightarrow> nat \<Rightarrow> 'k pq" where
  "siftDown a i =
     (let s = siftDown_pick a i in
      if s = i then a else siftDown (swap a s i) s)"
  by pat_completeness auto
termination siftDown
  by (relation "measure (\<lambda>(a, i). length a - i)") (auto dest: siftDown_pick_range)

declare siftDown.simps [simp del]

definition pq_empty :: "'k pq \<Rightarrow> bool" where
  "pq_empty a = (length a = 0)"

definition pq_push :: "'k pq \<Rightarrow> 'k \<Rightarrow> enat \<Rightarrow> 'k pq" where
  "pq_push a k pri = (let a1 = a @ [(k, pri)] in siftUp a1 (length a1 - 1))"

text \<open>\<open>pop\<close> returns the key on top, \<open>null\<close> on an empty array, and leaves the rest.\<close>

definition pq_pop :: "'k pq \<Rightarrow> 'k option \<times> 'k pq" where
  "pq_pop a =
     (if length a = 0 then (None, a)
      else let top = fst (a ! 0); lst = last a; a1 = butlast a in
        if length a1 \<noteq> 0 then (Some top, siftDown (a1[0 := lst]) 0)
        else (Some top, a1))"

lemma mset_swap_pq: "i < length a \<Longrightarrow> j < length a \<Longrightarrow> mset (swap a i j) = mset a"
  unfolding swap_def by (rule mset_swap)

lemma siftUp_mset: "i < length a \<Longrightarrow> mset (siftUp a i) = mset a"
proof (induction a i rule: siftUp.induct)
  case (1 a i)
  show ?case
  proof (cases "i > 0 \<and> \<not> snd (a ! ((i - 1) div 2)) \<le> snd (a ! i)")
    case True
    then have p: "(i - 1) div 2 < length a" using 1(2) by simp
    have "mset (siftUp (swap a ((i - 1) div 2) i) ((i - 1) div 2)) = mset (swap a ((i - 1) div 2) i)"
      using True p by (intro 1(1)) simp_all
    also have "\<dots> = mset a" using p 1(2) by (rule mset_swap_pq)
    finally show ?thesis using True by (subst siftUp.simps) (simp add: Let_def)
  next
    case False
    then show ?thesis by (subst siftUp.simps) (auto simp: Let_def)
  qed
qed

lemma siftDown_mset: "i < length a \<Longrightarrow> mset (siftDown a i) = mset a"
proof (induction a i rule: siftDown.induct)
  case (1 a i)
  show ?case
  proof (cases "siftDown_pick a i = i")
    case True
    then show ?thesis by (subst siftDown.simps) (simp add: Let_def)
  next
    case False
    from siftDown_pick_range[OF False] have s: "siftDown_pick a i < length a" by simp
    have "mset (siftDown (swap a (siftDown_pick a i) i) (siftDown_pick a i))
        = mset (swap a (siftDown_pick a i) i)"
      using False s by (intro 1(1)) simp_all
    also have "\<dots> = mset a" using s 1(2) by (rule mset_swap_pq)
    finally show ?thesis using False by (subst siftDown.simps) (simp add: Let_def)
  qed
qed

lemma pq_push_mset: "mset (pq_push a k pri) = add_mset (k, pri) (mset a)"
  by (simp add: pq_push_def Let_def siftUp_mset)

lemma pq_pop_mset:
  assumes "a \<noteq> []" and "pq_pop a = (r, a')"
  shows "\<exists>k pri. r = Some k \<and> (k, pri) = a ! 0 \<and> mset a = add_mset (k, pri) (mset a')"
proof (cases "butlast a = []")
  case True
  with assms(1) have a: "a = [a ! 0]"
    by (cases a) (auto split: if_splits)
  from assms True have "r = Some (fst (a ! 0))" "a' = []"
    by (auto simp: pq_pop_def Let_def)
  with a show ?thesis
    by (intro exI[of _ "fst (a ! 0)"] exI[of _ "snd (a ! 0)"]) (metis mset.simps mset_single_iff_right prod.collapse)
next
  case False
  then obtain x xs where bl: "butlast a = x # xs" by (cases "butlast a") auto
  with assms(1) have a: "a = x # xs @ [last a]"
    by (metis append_Cons append_butlast_last_id)
  have a0: "a ! 0 = x" by (subst a) simp
  have r: "r = Some (fst x)" and a': "a' = siftDown ((butlast a)[0 := last a]) 0"
    using assms False a0 by (auto simp: pq_pop_def Let_def)
  have "mset a' = mset ((butlast a)[0 := last a])"
    unfolding a' using bl by (intro siftDown_mset) simp
  also have "\<dots> = add_mset (last a) (mset xs)" using bl by simp
  finally have "mset a' = add_mset (last a) (mset xs)" .
  moreover have "mset a = add_mset x (add_mset (last a) (mset xs))" by (subst a) simp
  ultimately have "add_mset x (mset a') = mset a" by simp
  then show ?thesis using r a0
    by (intro exI[of _ "fst x"] exI[of _ "snd x"]) simp
qed

subsection \<open>A* search (\<open>astarDistToGoal\<close>)\<close>

text \<open>
  \<open>_hToGoal\<close>: 0 for an empty goal-row set, else the least \<open>|p.r - g|\<close>, computed from
  \<open>Infinity\<close> downward.
\<close>

definition hToGoal :: "cell \<Rightarrow> int list \<Rightarrow> enat" where
  "hToGoal p goals =
     (if length goals = 0 then 0
      else foldl (\<lambda>best g. min best (enat (nat \<bar>fst p - g\<bar>))) \<infinity> goals)"

text \<open>
  The inner \<open>for\<close> loop of \<open>astarDistToGoal\<close>. \<open>gu\<close> is \<open>gScore.get(uKey) ?? Infinity\<close>:
  \<open>None\<close> stands for \<open>Infinity\<close>, for which \<open>tentative < ...\<close> never holds, and a missing
  score of \<open>v\<close> is \<open>Infinity\<close>, below which every number is. The map \<open>fScore\<close> is only
  ever written after its first entry is read and is left out.
\<close>

fun astar_relax :: "nat option \<Rightarrow> cell list \<Rightarrow> int list \<Rightarrow> (cell \<rightharpoonup> nat) \<Rightarrow> cell pq
    \<Rightarrow> (cell \<rightharpoonup> nat) \<times> cell pq" where
  "astar_relax gu [] goals gScore opn = (gScore, opn)"
| "astar_relax gu (v # vs) goals gScore opn =
     (case gu of
        None \<Rightarrow> astar_relax gu vs goals gScore opn
      | Some g \<Rightarrow>
          let tentative = g + 1 in
          if (case gScore v of None \<Rightarrow> True | Some gv \<Rightarrow> tentative < gv) then
            let fv = enat tentative + hToGoal v goals
            in astar_relax gu vs goals (gScore(v \<mapsto> tentative)) (pq_push opn v fv)
          else astar_relax gu vs goals gScore opn)"

lemma astar_relax_keys:
  "astar_relax gu vs goals gScore opn = (gScore', opn') \<Longrightarrow>
     fst ` set opn' \<subseteq> fst ` set opn \<union> set vs"
proof (induction gu vs goals gScore opn rule: astar_relax.induct)
  case (1 gu goals gScore opn)
  then show ?case by simp
next
  case (2 gu v vs goals gScore opn)
  show ?case
  proof (cases gu)
    case None
    with 2 show ?thesis by auto
  next
    case (Some g)
    show ?thesis
    proof (cases "case gScore v of None \<Rightarrow> True | Some gv \<Rightarrow> g + 1 < gv")
      case True
      have eq: "astar_relax gu vs goals (gScore(v \<mapsto> g + 1))
          (pq_push opn v (enat (g + 1) + hToGoal v goals)) = (gScore', opn')"
        using 2(4) True unfolding Some astar_relax.simps option.case Let_def by (simp only: if_True)
      have "fst ` set opn' \<subseteq> fst ` set (pq_push opn v (enat (g + 1) + hToGoal v goals)) \<union> set vs"
        using 2(2)[OF Some refl True refl eq] .
      moreover have "set (pq_push opn v (enat (g + 1) + hToGoal v goals))
          = insert (v, enat (g + 1) + hToGoal v goals) (set opn)"
        using pq_push_mset[of opn v "enat (g + 1) + hToGoal v goals"]
        by (metis set_mset_add_mset_insert set_mset_mset)
      ultimately show ?thesis by auto
    next
      case False
      have eq: "astar_relax gu vs goals gScore opn = (gScore', opn')"
        using 2(4) False unfolding Some astar_relax.simps option.case Let_def by (simp only: if_False)
      from 2(3)[OF Some refl False eq] show ?thesis by auto
    qed
  qed
qed

lemma astar_loop_decreases_skip:
  assumes "opn \<noteq> []" "pq_pop opn = (Some u, opn1)"
  shows "((b, goals, gScore, opn1, seen), (b, goals, gScore, opn, seen))
       \<in> inv_image (less_than <*lex*> less_than)
           (\<lambda>(b, g, gs, opn, seen). (card (box b (set seen \<union> fst ` set opn) - set seen), length opn))"
proof -
  from pq_pop_mset[OF assms] obtain pri where m: "mset opn = add_mset (u, pri) (mset opn1)" by blast
  then have "set opn = insert (u, pri) (set opn1)"
    by (metis set_mset_add_mset_insert set_mset_mset)
  then have sub: "set seen \<union> fst ` set opn1 \<subseteq> set seen \<union> fst ` set opn" by auto
  have len: "length opn = Suc (length opn1)" using m by (metis size_add_mset size_mset)
  have fin: "finite (box b (set seen \<union> fst ` set opn) - set seen)"
    by (intro finite_Diff finite_box) simp
  have "box b (set seen \<union> fst ` set opn1) - set seen \<subseteq> box b (set seen \<union> fst ` set opn) - set seen"
    using box_mono[OF sub, of b] by blast
  with fin have "card (box b (set seen \<union> fst ` set opn1) - set seen)
      \<le> card (box b (set seen \<union> fst ` set opn) - set seen)"
    by (rule card_mono)
  with len show ?thesis by (auto simp: le_less)
qed

lemma astar_loop_decreases_expand:
  assumes "opn \<noteq> []" "pq_pop opn = (Some u, opn1)" "u \<notin> set seen"
    and "astar_relax gu (neighbors b u) goals gScore opn1 = (gScore2, opn2)"
  shows "((b, goals, gScore2, opn2, set_add u seen), (b, goals, gScore, opn, seen))
       \<in> inv_image (less_than <*lex*> less_than)
           (\<lambda>(b, g, gs, opn, seen). (card (box b (set seen \<union> fst ` set opn) - set seen), length opn))"
proof -
  let ?S = "set seen \<union> fst ` set opn"
  let ?S' = "set (set_add u seen) \<union> fst ` set opn2"
  from pq_pop_mset[OF assms(1,2)] obtain pri where m: "mset opn = add_mset (u, pri) (mset opn1)" by blast
  then have so: "set opn = insert (u, pri) (set opn1)"
    by (metis set_mset_add_mset_insert set_mset_mset)
  then have u: "u \<in> ?S" by force
  have nb: "set (neighbors b u) \<subseteq> box b ?S" using u by (rule neighbors_in_box)
  have "?S' \<subseteq> ?S \<union> set (neighbors b u)"
    using astar_relax_keys[OF assms(4)] so by (auto simp: set_add_def)
  then have "box b ?S' \<subseteq> box b (?S \<union> set (neighbors b u))" by (rule box_mono)
  also have "\<dots> \<subseteq> box b ?S" using nb by (rule box_absorb)
  finally have sub: "box b ?S' \<subseteq> box b ?S" .
  have ub: "u \<in> box b ?S" using u box_extensive[of ?S b] by blast
  have fin: "finite (box b ?S - set seen)" by (intro finite_Diff finite_box) simp
  have "box b ?S' - set (set_add u seen) \<subset> box b ?S - set seen"
    using sub ub assms(3) by (auto simp: set_add_def)
  with fin have "card (box b ?S' - set (set_add u seen)) < card (box b ?S - set seen)"
    by (rule psubset_card_mono)
  then show ?thesis by simp
qed

text \<open>
  The \<open>while\<close> loop. \<open>pop\<close> yields \<open>null\<close> only on an empty queue, which the loop guard
  excludes; the key read back by \<open>split\<close> and \<open>Number\<close> is the cell itself.
\<close>

function astar_loop :: "Board \<Rightarrow> int list \<Rightarrow> (cell \<rightharpoonup> nat) \<Rightarrow> cell pq \<Rightarrow> cell list \<Rightarrow> nat option" where
  "astar_loop b goals gScore opn seen =
     (if pq_empty opn then None
      else case pq_pop opn of
        (None, opn1) \<Rightarrow> None
      | (Some u, opn1) \<Rightarrow>
          if u \<in> set seen then astar_loop b goals gScore opn1 seen
          else
            let seen1 = set_add u seen in
            if fst u \<in> set goals then gScore u
            else case astar_relax (gScore u) (neighbors b u) goals gScore opn1 of
              (gScore2, opn2) \<Rightarrow> astar_loop b goals gScore2 opn2 seen1)"
  by pat_completeness auto
termination astar_loop
proof (relation "inv_image (less_than <*lex*> less_than)
    (\<lambda>(b, g, gs, opn, seen). (card (box b (set seen \<union> fst ` set opn) - set seen), length opn))",
    goal_cases)
  case 1
  show ?case by (intro wf_inv_image wf_lex_prod wf_less_than)
next
  case (2 b goals gScore opn seen x y x2)
  then have "opn \<noteq> []" "pq_pop opn = (Some x2, y)" by (simp_all add: pq_empty_def)
  then show ?case by (rule astar_loop_decreases_skip)
next
  case (3 b goals gScore opn seen x y x2 xa xb ya)
  then have "opn \<noteq> []" "pq_pop opn = (Some x2, y)" "x2 \<notin> set seen"
    "astar_relax (gScore x2) (neighbors b x2) goals gScore y = (xb, ya)"
    by (simp_all add: pq_empty_def)
  then have "((b, goals, xb, ya, set_add x2 seen), (b, goals, gScore, opn, seen))
       \<in> inv_image (less_than <*lex*> less_than)
           (\<lambda>(b, g, gs, opn, seen). (card (box b (set seen \<union> fst ` set opn) - set seen), length opn))"
    by (rule astar_loop_decreases_expand)
  with 3 show ?case by simp
qed

declare astar_loop.simps [simp del]

definition astarDistToGoal :: "Board \<Rightarrow> cell \<Rightarrow> int list \<Rightarrow> nat option" where
  "astarDistToGoal b start goals =
     astar_loop b goals [start \<mapsto> 0] (pq_push [] start (hToGoal start goals)) []"

section \<open>Search (ai/search.js)\<close>

text \<open>
  Numbers. Path lengths, scores and evaluations are finite; they are exact rationals
  here. The scores add \<open>2.0\<close>, \<open>-1.5\<close> and \<open>-0.7\<close> to a small integer and the values of
  \<open>negamax\<close> are half-integers, \<open>1e6\<close> and \<open>-0.001 * depth\<close>, on which double rounding
  keeps every comparison the exact one. \<open>negamax\<close> also handles \<open>Infinity\<close> and
  \<open>-Infinity\<close>.
\<close>

datatype num = NegInf | Num rat | PosInf

fun num_neg :: "num \<Rightarrow> num" where
  "num_neg NegInf = PosInf"
| "num_neg (Num x) = Num (- x)"
| "num_neg PosInf = NegInf"

fun num_less :: "num \<Rightarrow> num \<Rightarrow> bool" where
  "num_less PosInf y = False"
| "num_less x NegInf = False"
| "num_less NegInf y = True"
| "num_less x PosInf = True"
| "num_less (Num x) (Num y) = (x < y)"

definition num_ge :: "num \<Rightarrow> num \<Rightarrow> bool" where
  "num_ge x y = (x = y \<or> num_less y x)"

text \<open>\<open>xs[i]\<close> with \<open>undefined\<close> out of range.\<close>

definition nth_opt :: "'a list \<Rightarrow> nat \<Rightarrow> 'a option" where
  "nth_opt xs i = (if i < length xs then Some (xs ! i) else None)"

function recentMySquares_loop :: "Snapshot list \<Rightarrow> nat \<Rightarrow> nat \<Rightarrow> int \<Rightarrow> cell list \<Rightarrow> cell list" where
  "recentMySquares_loop hist me k i squares =
     (if i \<ge> 0 \<and> length squares < k then
        (case nth_opt hist (nat i) of
           None \<Rightarrow> recentMySquares_loop hist me k (i - 2) squares
         | Some snap \<Rightarrow>
             (case nth_opt (snap_pawns snap) me of
                None \<Rightarrow> recentMySquares_loop hist me k (i - 2) squares
              | Some p \<Rightarrow> recentMySquares_loop hist me k (i - 2) (squares @ [p])))
      else squares)"
  by pat_completeness auto
termination recentMySquares_loop
  by (relation "measure (\<lambda>(hist, me, k, i, squares). nat (i + 1))") auto

declare recentMySquares_loop.simps [simp del]

definition recentMySquares :: "Snapshot list \<Rightarrow> nat \<Rightarrow> nat \<Rightarrow> cell list" where
  "recentMySquares hist me k = recentMySquares_loop hist me k (int (length hist) - 2) []"

definition backSquare :: "GameState \<Rightarrow> nat \<Rightarrow> cell option" where
  "backSquare s me =
     (if length (history s) \<ge> 2 then
        (case nth_opt (history s) (length (history s) - 2) of
           None \<Rightarrow> None
         | Some snap \<Rightarrow> nth_opt (snap_pawns snap) me)
      else None)"

text \<open>
  The body of the scoring loop of \<open>orderedMoves\<close>, after the move was applied: the
  distances are \<open>astarDistToGoal(...) ?? 99\<close>.
\<close>

definition moveScore :: "GameState \<Rightarrow> move \<Rightarrow> nat \<Rightarrow> cell option \<Rightarrow> cell option \<Rightarrow> cell list \<Rightarrow> rat" where
  "moveScore s mv me spNext back recent =
     (let you = 1 - me;
          dMe = (case astarDistToGoal (board s) (pawns s ! me) (goalRows s me) of
                   None \<Rightarrow> 99 | Some d \<Rightarrow> of_nat d);
          dYou = (case astarDistToGoal (board s) (pawns s ! you) (goalRows s you) of
                   None \<Rightarrow> 99 | Some d \<Rightarrow> of_nat d);
          score = dYou - dMe
      in case mv of
           WALL w \<Rightarrow> score
         | PAWN t \<Rightarrow>
             let dest = pawns s ! me;
                 score = (if spNext = Some dest then score + 2 else score);
                 score = (if back = Some dest then score - 3 / 2 else score);
                 score = (if dest \<in> set recent then score - 7 / 10 else score)
             in score)"

fun scoreMoves :: "move list \<Rightarrow> nat \<Rightarrow> cell option \<Rightarrow> cell option \<Rightarrow> cell list
    \<Rightarrow> (rat \<times> move) list \<Rightarrow> GameState \<Rightarrow> (rat \<times> move) list result" where
  "scoreMoves [] me spNext back recent scored s = Return scored s"
| "scoreMoves (mv # mvs) me spNext back recent scored s =
     (let snap = snapshot s in
      case applyMove s mv False of
        Throw e s1 \<Rightarrow> Throw e s1
      | Diverge \<Rightarrow> Diverge
      | Return u s1 \<Rightarrow>
          let score = moveScore s1 mv me spNext back recent;
              s2 = restore s1 snap
          in scoreMoves mvs me spNext back recent (scored @ [(score, mv)]) s2)"

text \<open>\<open>scored.sort((a,b)=>b[0]-a[0])\<close> is a stable sort by descending score.\<close>

definition orderedMoves :: "GameState \<Rightarrow> move list result" where
  "orderedMoves s =
     (let me = toMove s;
          back = backSquare s me;
          recent = recentMySquares (history s) me 6
      in case shortestPathNext s me of
           None \<Rightarrow> Diverge
         | Some sp \<Rightarrow>
             (case legalMoves s of
                Throw e s1 \<Rightarrow> Throw e s1
              | Diverge \<Rightarrow> Diverge
              | Return mvs s1 \<Rightarrow>
                  (case scoreMoves mvs me (snd sp) back recent [] s1 of
                     Throw e s2 \<Rightarrow> Throw e s2
                   | Diverge \<Rightarrow> Diverge
                   | Return scored s2 \<Rightarrow>
                       Return (map snd (sort_key (\<lambda>x. - fst x) scored)) s2)))"

text \<open>\<open>posKey\<close>: the JSON text of the pawns, the two wall sets in insertion order and
  the side to move determines exactly this tuple.\<close>

type_synonym poskey = "cell list \<times> cell list \<times> cell list \<times> nat"

definition posKey :: "GameState \<Rightarrow> poskey" where
  "posKey s = (pawns s, hWalls (board s), vWalls (board s), toMove s)"

text \<open>
  \<open>negamax\<close> returns the pair \<open>[value, move]\<close>; the set \<open>seen\<close> of keys on the current
  path is shared by all calls, so it is passed in and handed back. \<open>negamax_moves\<close> is
  the \<open>for\<close> loop over the ordered moves, with \<open>alpha\<close>, \<open>bestVal\<close> and \<open>bestMove\<close> as
  they stand before the move.
\<close>

function negamax :: "GameState \<Rightarrow> nat \<Rightarrow> num \<Rightarrow> num \<Rightarrow> poskey list
      \<Rightarrow> (num \<times> move option \<times> poskey list) result"
  and negamax_moves :: "move list \<Rightarrow> GameState \<Rightarrow> nat \<Rightarrow> num \<Rightarrow> num \<Rightarrow> poskey list
      \<Rightarrow> num \<Rightarrow> move option \<Rightarrow> (num \<times> move option \<times> poskey list) result" where
  "negamax s depth alpha beta seen =
     (let k = posKey s in
      if k \<in> set seen then Return (Num (- (1 / 1000) * of_nat depth), None, seen) s
      else
        let seen1 = set_add k seen in
        case winner s of
          Some w \<Rightarrow>
            Return (if w = toMove s then Num 1000000 else Num (- 1000000), None,
                    set_delete k seen1) s
        | None \<Rightarrow>
            (case depth of
               0 \<Rightarrow> Return (Num (evaluate s (toMove s)), None, set_delete k seen1) s
             | Suc d \<Rightarrow>
                 (case orderedMoves s of
                    Throw e s1 \<Rightarrow> Throw e s1
                  | Diverge \<Rightarrow> Diverge
                  | Return mvs s1 \<Rightarrow>
                      (case negamax_moves mvs s1 d alpha beta seen1 NegInf None of
                         Throw e s2 \<Rightarrow> Throw e s2
                       | Diverge \<Rightarrow> Diverge
                       | Return (bestVal, bestMove, seen2) s2 \<Rightarrow>
                           Return (bestVal, bestMove, set_delete k seen2) s2))))"
| "negamax_moves [] s d alpha beta seen bestVal bestMove = Return (bestVal, bestMove, seen) s"
| "negamax_moves (mv # mvs) s d alpha beta seen bestVal bestMove =
     (let snap = snapshot s in
      case applyMove s mv False of
        Throw e s1 \<Rightarrow> Throw e s1
      | Diverge \<Rightarrow> Diverge
      | Return u s1 \<Rightarrow>
          (case negamax s1 d (num_neg beta) (num_neg alpha) seen of
             Throw e s2 \<Rightarrow> Throw e s2
           | Diverge \<Rightarrow> Diverge
           | Return (vc, m, seen2) s2 \<Rightarrow>
               let v = num_neg vc;
                   s3 = restore s2 snap;
                   bestMove1 = (if num_less bestVal v then Some mv else bestMove);
                   bestVal1 = (if num_less bestVal v then v else bestVal);
                   alpha1 = (if num_less alpha bestVal1 then bestVal1 else alpha)
               in if num_ge alpha1 beta then Return (bestVal1, bestMove1, seen2) s3
                  else negamax_moves mvs s3 d alpha1 beta seen2 bestVal1 bestMove1))"
  by pat_completeness auto
termination
  by (relation "inv_image (less_than <*lex*> less_than)
        (\<lambda>x. case x of
           Inl (s, depth, alpha, beta, seen) \<Rightarrow> (depth, 0)
         | Inr (mvs, s, d, alpha, beta, seen, bestVal, bestMove) \<Rightarrow> (d, Suc (length mvs)))")
     auto

declare negamax.simps [simp del]

text \<open>
  \<open>searchWithTime\<close>. The clock is a parameter: \<open>now 0\<close> is the reading of
  \<open>performance.now()\<close> before the first depth and \<open>now d\<close> the reading after depth \<open>d\<close>.
  The result is a move, or \<open>undefined\<close> (\<open>None\<close>) when \<open>legalMoves()[0]\<close> reads an empty
  array.
\<close>

lemma deepen_decreases:
  assumes "rat_of_nat d \<le> maxDepth"
  shows "nat (\<lfloor>maxDepth\<rfloor> + 1) - Suc d < nat (\<lfloor>maxDepth\<rfloor> + 1) - d"
proof -
  have "rat_of_int (int d) \<le> maxDepth" using assms by simp
  then have "int d \<le> \<lfloor>maxDepth\<rfloor>" by (simp only: le_floor_iff)
  then show ?thesis by linarith
qed

function deepen :: "(nat \<Rightarrow> rat) \<Rightarrow> rat \<Rightarrow> rat \<Rightarrow> nat \<Rightarrow> move option \<Rightarrow> GameState
    \<Rightarrow> move option result" where
  "deepen now maxDepth timeLimitMs d best s =
     (if of_nat d \<le> maxDepth then
        (case negamax s d NegInf PosInf [] of
           Throw e s1 \<Rightarrow> Throw e s1
         | Diverge \<Rightarrow> Diverge
         | Return (v, mv, seen) s1 \<Rightarrow>
             let best1 = (case mv of Some m \<Rightarrow> Some m | None \<Rightarrow> best) in
             if now d - now 0 > timeLimitMs then Return best1 s1
             else deepen now maxDepth timeLimitMs (d + 1) best1 s1)
      else Return best s)"
  by pat_completeness auto
termination deepen
  by (relation "measure (\<lambda>(now, maxDepth, timeLimitMs, d, best, s). nat (\<lfloor>maxDepth\<rfloor> + 1) - d)")
     (auto intro: deepen_decreases)

declare deepen.simps [simp del]

definition searchWithTime :: "(nat \<Rightarrow> rat) \<Rightarrow> GameState \<Rightarrow> rat \<Rightarrow> rat \<Rightarrow> move option result" where
  "searchWithTime now s maxDepth timeLimitMs =
     (let me = toMove s;
          slow = (case deepen now maxDepth timeLimitMs 1 None s of
                    Throw e s1 \<Rightarrow> Throw e s1
                  | Diverge \<Rightarrow> Diverge
                  | Return best s1 \<Rightarrow>
                      (case best of
                         Some m \<Rightarrow> Return (Some m) s1
                       | None \<Rightarrow>
                           (case legalMoves s1 of
                              Throw e s2 \<Rightarrow> Throw e s2
                            | Diverge \<Rightarrow> Diverge
                            | Return mvs s2 \<Rightarrow> Return (nth_opt mvs 0) s2)))
      in if wallsLeft s ! me \<le> 0 then
           (case shortestPathNext s me of
              None \<Rightarrow> Diverge
            | Some sp \<Rightarrow>
                (case snd sp of
                   None \<Rightarrow> slow
                 | Some nxt \<Rightarrow> if nxt \<in> set (legalPawnMoves s) then Return (Some (PAWN nxt)) s else slow))
         else slow)"

section \<open>Well-formed states\<close>

text \<open>
  Every owner entry belongs to a placed wall. \<open>placeWall\<close> and \<open>removeWall\<close> keep it so,
  and \<open>removeWall\<close> relies on it when it retracts a probe.
\<close>

definition owners_ok :: "Board \<Rightarrow> bool" where
  "owners_ok b = (fst ` set (hOwners b) \<subseteq> set (hWalls b) \<and> fst ` set (vOwners b) \<subseteq> set (vWalls b))"

definition wf_state :: "GameState \<Rightarrow> bool" where
  "wf_state s = (length (pawns s) = 2 \<and> length (wallsLeft s) = 2 \<and> toMove s < 2 \<and>
     gsN s = N (board s) \<and> owners_ok (board s))"

text \<open>What a wall configuration says about one wall: whether it is placed, and its owner.\<close>

definition hasWall :: "Board \<Rightarrow> wall \<Rightarrow> bool" where
  "hasWall b w = (case w of (r, c, ori) \<Rightarrow>
     if ori = H then (r, c) \<in> set (hWalls b) else (r, c) \<in> set (vWalls b))"

definition ownerOf :: "Board \<Rightarrow> wall \<Rightarrow> nat option" where
  "ownerOf b w = (case w of (r, c, ori) \<Rightarrow>
     if ori = H then map_of (hOwners b) (r, c) else map_of (vOwners b) (r, c))"

text \<open>A 3 x 3 position in which player 1 has placed the horizontal wall at \<open>(0, 0)\<close>: the
  vertical wall at \<open>(0, 1)\<close> is legal but would shut player 0 in.\<close>

definition cornered :: GameState where
  "cornered = (newGameState 3)\<lparr>board := (newBoard 3)\<lparr>hWalls := [(0, 0)], hOwners := [((0, 0), 1)]\<rparr>,
     wallsLeft := [10, 9]\<rparr>"

text \<open>Player 0 at \<open>(7, 4)\<close> faces player 1 at \<open>(8, 4)\<close> on the last row of the empty
  9 x 9 board: the straight jump leaves the board.\<close>

definition atEdge :: GameState where
  "atEdge = (newGameState 9)\<lparr>pawns := [(7, 4), (8, 4)]\<rparr>"

section \<open>Paths on the board\<close>

text \<open>
  The graph the searches walk: an edge leads from a cell to each of its \<open>neighbors\<close>.
  \<open>goalDist\<close> is the length of a shortest walk from \<open>start\<close> to a cell on a goal row,
  \<open>None\<close> when there is no such walk.
\<close>

definition edges :: "Board \<Rightarrow> (cell \<times> cell) set" where
  "edges b = {(p, q). q \<in> set (neighbors b p)}"

definition connected :: "Board \<Rightarrow> cell \<Rightarrow> cell \<Rightarrow> bool" where
  "connected b s v = (\<exists>n. (s, v) \<in> edges b ^^ n)"

definition cdist :: "Board \<Rightarrow> cell \<Rightarrow> cell \<Rightarrow> nat" where
  "cdist b s v = (LEAST n. (s, v) \<in> edges b ^^ n)"

definition goalDist :: "Board \<Rightarrow> cell \<Rightarrow> int list \<Rightarrow> nat option" where
  "goalDist b s goals =
     (if \<exists>n t. (s, t) \<in> edges b ^^ n \<and> fst t \<in> set goals
      then Some (LEAST n. \<exists>t. (s, t) \<in> edges b ^^ n \<and> fst t \<in> set goals)
      else None)"

text \<open>The invariant of the \<open>while\<close> loop of \<open>bfsDistToGoal\<close>.\<close>

definition bfs_inv :: "Board \<Rightarrow> cell \<Rightarrow> int list \<Rightarrow> cell list \<Rightarrow> (cell \<times> nat) list \<Rightarrow> bool" where
  "bfs_inv b s goals seen q =
     (s \<in> set seen \<and>
      (\<forall>v \<in> set seen. connected b s v) \<and>
      (\<forall>(v, d) \<in> set q. v \<in> set seen \<and> cdist b s v = d) \<and>
      sorted (map snd q) \<and>
      (\<forall>x \<in> set q. \<forall>y \<in> set q. snd x \<le> snd y + 1) \<and>
      (\<forall>v \<in> set seen. v \<notin> fst ` set q \<longrightarrow>
         fst v \<notin> set goals \<and> set (neighbors b v) \<subseteq> set seen) \<and>
      (\<forall>v. q \<noteq> [] \<and> connected b s v \<and> cdist b s v \<le> snd (hd q) \<longrightarrow> v \<in> set seen))"

text \<open>A candidate wall passes the probe of \<open>legalWallMoves\<close>.\<close>

definition wallOk :: "GameState \<Rightarrow> wall \<Rightarrow> bool" where
  "wallOk s w = (wallLegal (board s) w \<and>
     (case placeWall (board s) w None of Inl e \<Rightarrow> False | Inr b1 \<Rightarrow> bothPaths b1 s))"




text \<open>The walls \<open>legalWallMoves\<close> returns, as a function of the state.\<close>

definition legalWallList :: "GameState \<Rightarrow> wall list" where
  "legalWallList s =
     (if wallsLeft s ! toMove s \<le> 0 then [] else filter (wallOk s) (wallCandidates (gsN s)))"

text \<open>The 3 x 3 game after player 0 has opened with the horizontal wall at \<open>(0, 0)\<close>.\<close>

definition opened :: GameState where
  "opened = (newGameState 3)\<lparr>board := (newBoard 3)\<lparr>hWalls := [(0, 0)], hOwners := [((0, 0), 0)]\<rparr>,
     wallsLeft := [9, 10], toMove := 1\<rparr>"

text \<open>A cell from which the walk along the parent map ends.\<close>

inductive rooted :: "(cell \<rightharpoonup> cell) \<Rightarrow> cell \<Rightarrow> bool" for parent :: "cell \<rightharpoonup> cell" where
  root: "parent x = None \<Longrightarrow> rooted parent x"
| child: "parent x = Some p \<Longrightarrow> rooted parent p \<Longrightarrow> rooted parent x"

text \<open>The invariant of the \<open>while\<close> loop of \<open>bfsNextStepToGoal\<close>.\<close>

definition bfsn_inv :: "cell list \<Rightarrow> cell list \<Rightarrow> (cell \<rightharpoonup> cell) \<Rightarrow> bool" where
  "bfsn_inv seen q parent =
     (set q \<subseteq> set seen \<and> ran parent \<subseteq> set seen \<and> (\<forall>x \<in> set seen. rooted parent x))"

text \<open>The moves \<open>legalMoves\<close> returns, as a function of the state.\<close>

definition legalMoveList :: "GameState \<Rightarrow> move list" where
  "legalMoveList s = map PAWN (legalPawnMoves s) @ map WALL (legalWallList s)"

section \<open>The heap order and the invariant of A*\<close>

text \<open>
  The heap order of the array of \<open>MinPQ\<close>: no entry has a smaller priority than its
  parent. \<open>heap_up a i\<close> and \<open>heap_down a i\<close> are what \<open>_siftUp\<close> and \<open>_siftDown\<close>
  find when they reach index \<open>i\<close>: the order holds except between \<open>i\<close> and its parent,
  or except between \<open>i\<close> and its children.
\<close>

definition is_heap :: "'k pq \<Rightarrow> bool" where
  "is_heap a = (\<forall>j < length a. 0 < j \<longrightarrow> snd (a ! ((j - 1) div 2)) \<le> snd (a ! j))"

definition heap_up :: "'k pq \<Rightarrow> nat \<Rightarrow> bool" where
  "heap_up a i =
     ((\<forall>j < length a. 0 < j \<longrightarrow> j \<noteq> i \<longrightarrow> snd (a ! ((j - 1) div 2)) \<le> snd (a ! j)) \<and>
      (\<forall>j < length a. 0 < j \<longrightarrow> (j - 1) div 2 = i \<longrightarrow> 0 < i \<longrightarrow>
          snd (a ! ((i - 1) div 2)) \<le> snd (a ! j)))"

definition heap_down :: "'k pq \<Rightarrow> nat \<Rightarrow> bool" where
  "heap_down a i =
     ((\<forall>j < length a. 0 < j \<longrightarrow> (j - 1) div 2 \<noteq> i \<longrightarrow> snd (a ! ((j - 1) div 2)) \<le> snd (a ! j)) \<and>
      (\<forall>j < length a. 0 < j \<longrightarrow> (j - 1) div 2 = i \<longrightarrow> 0 < i \<longrightarrow>
          snd (a ! ((i - 1) div 2)) \<le> snd (a ! j)))"

text \<open>
  The invariant of the \<open>while\<close> loop of \<open>astarDistToGoal\<close>. \<open>g_le g g2\<close>: the scores of
  \<open>g2\<close> are those of \<open>g\<close> or lower. \<open>astar_pre\<close>: the queue is in heap order; a score
  \<open>k\<close> of a cell is the length of a walk from \<open>s\<close> to it; a queue entry of a cell carries a
  priority \<open>k + h\<close> with \<open>k\<close> at least the cell's score; and a scored cell outside \<open>S\<close> has
  an entry with its score. \<open>astar_inv\<close> adds that a cell in \<open>seen\<close> is on no goal row, has
  its distance from \<open>s\<close> as score, and that its neighbours have scores at most one higher.
\<close>

definition g_le :: "(cell \<rightharpoonup> nat) \<Rightarrow> (cell \<rightharpoonup> nat) \<Rightarrow> bool" where
  "g_le g g2 = (\<forall>v k. g v = Some k \<longrightarrow> (\<exists>k'. g2 v = Some k' \<and> k' \<le> k))"

definition astar_pre :: "Board \<Rightarrow> cell \<Rightarrow> int list \<Rightarrow> (cell \<rightharpoonup> nat) \<Rightarrow> cell pq \<Rightarrow> cell set \<Rightarrow> bool" where
  "astar_pre b s goals g opn S =
     (is_heap opn \<and>
      (\<forall>v k. g v = Some k \<longrightarrow> (s, v) \<in> edges b ^^ k) \<and>
      (\<forall>v p. (v, p) \<in> set opn \<longrightarrow>
         (\<exists>k kv. p = enat k + hToGoal v goals \<and> g v = Some kv \<and> kv \<le> k)) \<and>
      (\<forall>v k. g v = Some k \<longrightarrow> v \<notin> S \<longrightarrow> (v, enat k + hToGoal v goals) \<in> set opn))"

definition astar_inv :: "Board \<Rightarrow> cell \<Rightarrow> int list \<Rightarrow> (cell \<rightharpoonup> nat) \<Rightarrow> cell pq \<Rightarrow> cell list \<Rightarrow> bool" where
  "astar_inv b s goals g opn seen =
     (astar_pre b s goals g opn (set seen) \<and>
      g s = Some 0 \<and>
      (\<forall>v \<in> set seen. fst v \<notin> set goals \<and> g v = Some (cdist b s v) \<and>
         (\<forall>w \<in> set (neighbors b v). \<exists>k. g w = Some k \<and> k \<le> cdist b s v + 1)))"

section \<open>Lemmas\<close>

lemma set_uniq: "set (uniq seen ms) = set ms - set seen"
  by (induction seen ms rule: uniq.induct) (auto simp: set_add_def)

lemma neighbors_iff:
  "q \<in> set (neighbors b p) \<longleftrightarrow>
     \<not> blockedEdge b p q \<and>
     ((q = (fst p - 1, snd p) \<and> fst p > 0) \<or> (q = (fst p + 1, snd p) \<and> fst p + 1 < N b) \<or>
      (q = (fst p, snd p - 1) \<and> snd p > 0) \<or> (q = (fst p, snd p + 1) \<and> snd p + 1 < N b))"
  by (cases p) (auto simp: neighbors_def Let_def)

lemma legalPawnMoves_iff:
  "p \<in> set (legalPawnMoves s) \<longleftrightarrow>
     (\<exists>q \<in> set (neighbors (board s) (pawns s ! toMove s)).
        p \<in> set (if q = pawns s ! (1 - toMove s)
                   then jumpMoves s (pawns s ! toMove s) (pawns s ! (1 - toMove s)) else [q]))"
  unfolding legalPawnMoves_def Let_def set_uniq by auto

lemma neighbors_ne: "q \<in> set (neighbors b p) \<Longrightarrow> q \<noteq> p"
  by (cases p) (auto simp: neighbors_def Let_def split: if_splits)

lemma delete_fresh: "k \<notin> fst ` set m \<Longrightarrow> AList.delete k m = m"
  by (induction m) (auto simp: AList.delete_eq)

lemma delete_update_fresh: "k \<notin> fst ` set m \<Longrightarrow> AList.delete k (AList.update k v m) = m"
  by (induction m) (auto simp: AList.delete_eq)

lemma set_delete_add_fresh: "k \<notin> set xs \<Longrightarrow> set_delete k (set_add k xs) = xs"
  by (simp add: set_delete_def set_add_def)

lemma wallLegal_fresh:
  "wallLegal b (r, c, ori) \<Longrightarrow> (if ori = H then (r, c) \<notin> set (hWalls b) else (r, c) \<notin> set (vWalls b))"
  by (auto simp: wallLegal_def split: if_splits)

lemma place_remove:
  assumes "owners_ok b" "placeWall b w owner = Inr b1"
  shows "removeWall b1 w = b"
proof -
  obtain r c ori where w: "w = (r, c, ori)" by (cases w)
  from assms(2) have legal: "wallLegal b w" by (auto simp: placeWall_def split: if_splits)
  show ?thesis
  proof (cases "ori = H")
    case True
    with legal w have fresh: "(r, c) \<notin> set (hWalls b)" using wallLegal_fresh[of b r c ori] by simp
    with assms(1) have ofresh: "(r, c) \<notin> fst ` set (hOwners b)" by (auto simp: owners_ok_def)
    from assms(2) legal w True have "b1 = b\<lparr>hWalls := set_add (r, c) (hWalls b),
        hOwners := (case owner of None \<Rightarrow> hOwners b | Some p \<Rightarrow> AList.update (r, c) p (hOwners b))\<rparr>"
      by (simp add: placeWall_def)
    then show ?thesis using w True fresh ofresh
      by (cases owner) (simp_all add: removeWall_def set_delete_add_fresh delete_fresh delete_update_fresh)
  next
    case False
    with legal w have fresh: "(r, c) \<notin> set (vWalls b)" using wallLegal_fresh[of b r c ori] by simp
    with assms(1) have ofresh: "(r, c) \<notin> fst ` set (vOwners b)" by (auto simp: owners_ok_def)
    from assms(2) legal w False have "b1 = b\<lparr>vWalls := set_add (r, c) (vWalls b),
        vOwners := (case owner of None \<Rightarrow> vOwners b | Some p \<Rightarrow> AList.update (r, c) p (vOwners b))\<rparr>"
      by (simp add: placeWall_def)
    then show ?thesis using w False fresh ofresh
      by (cases owner) (simp_all add: removeWall_def set_delete_add_fresh delete_fresh delete_update_fresh)
  qed
qed

lemma placeWall_legal: "wallLegal b w \<Longrightarrow> \<exists>b1. placeWall b w owner = Inr b1"
  by (cases w) (auto simp: placeWall_def)

lemma placeWall_records:
  assumes "placeWall b w (Some p) = Inr b1"
  shows "hasWall b1 w \<and> ownerOf b1 w = Some p \<and> N b1 = N b"
proof -
  obtain r c ori where w: "w = (r, c, ori)" by (cases w)
  have upd: "map_of (AList.update k v m) k = Some v" for k :: cell and v :: nat and m
    by (simp add: update_conv')
  from assms w show ?thesis
    by (auto simp: placeWall_def hasWall_def ownerOf_def set_add_def upd split: if_splits)
qed

lemma restore_snapshot:
  "gsN s' = gsN s \<Longrightarrow> N (board s') = N (board s) \<Longrightarrow> history s' = history s \<Longrightarrow>
   restore s' (snapshot s) = s"
  by (simp add: restore_def snapshot_def)

lemma placeWall_N: "placeWall b w owner = Inr b1 \<Longrightarrow> N b1 = N b"
  by (cases w) (auto simp: placeWall_def split: if_splits)

lemma applyMove_frame:
  assumes "applyMove s mv rec = Return u s'"
  shows "gsN s' = gsN s \<and> N (board s') = N (board s) \<and>
         history s' = (if rec then history s @ [snapshot s] else history s)"
proof (cases mv)
  case (PAWN dest)
  with assms show ?thesis
    by (auto simp: applyMove_def Let_def split: if_splits)
next
  case (WALL w)
  with assms show ?thesis
    by (auto simp: applyMove_def Let_def placeWall_N split: if_splits sum.splits)
qed

lemma jumpMoves_sides:
  assumes nb: "opp \<in> set (neighbors (board s) myp)"
    and nojump: "\<not> (inBounds s (2 * fst opp - fst myp, 2 * snd opp - snd myp) \<and>
                  \<not> blockedEdge (board s) opp (2 * fst opp - fst myp, 2 * snd opp - snd myp))"
    and x: "x = (fst opp + (snd opp - snd myp), snd opp + (fst opp - fst myp)) \<or>
            x = (fst opp - (snd opp - snd myp), snd opp - (fst opp - fst myp))"
  shows "x \<in> set (jumpMoves s myp opp) \<longleftrightarrow> inBounds s x \<and> \<not> blockedEdge (board s) opp x"
proof -
  have dest: "(fst opp + (fst opp - fst myp), snd opp + (snd opp - snd myp))
      = (2 * fst opp - fst myp, 2 * snd opp - snd myp)" by simp
  have open_edge: "\<not> blockedEdge (board s) myp opp" using nb by (simp add: neighbors_iff)
  from nb have unit: "(fst opp - fst myp = -1 \<and> snd opp = snd myp) \<or> (fst opp - fst myp = 1 \<and> snd opp = snd myp)
      \<or> (fst opp = fst myp \<and> snd opp - snd myp = -1) \<or> (fst opp = fst myp \<and> snd opp - snd myp = 1)"
    by (cases myp) (auto simp: neighbors_iff)
  have jm: "set (jumpMoves s myp opp) =
      {side. \<exists>d \<in> {(-1, 0), (1, 0), (0, -1), (0, 1)}. side = (fst opp + fst d, snd opp + snd d) \<and>
         inBounds s side \<and> \<not> blockedEdge (board s) opp side}"
    using nojump open_edge unfolding jumpMoves_def Let_def dest by auto
  have dir: "\<exists>d \<in> {(-1, 0), (1, 0), (0, -1), (0, 1)}. x = (fst opp + fst d, snd opp + snd d)"
    using unit x by (elim disjE conjE) simp_all
  show ?thesis unfolding jm using dir by blast
qed

lemma neighbor_unit:
  assumes "opp \<in> set (neighbors b myp)"
  shows "(fst opp - fst myp = -1 \<and> snd opp = snd myp) \<or> (fst opp - fst myp = 1 \<and> snd opp = snd myp)
      \<or> (fst opp = fst myp \<and> snd opp - snd myp = -1) \<or> (fst opp = fst myp \<and> snd opp - snd myp = 1)"
  using assms by (cases myp) (auto simp: neighbors_iff)

lemma jumpMoves_exact:
  assumes nb: "opp \<in> set (neighbors (board s) myp)"
    and nojump: "\<not> (inBounds s (2 * fst opp - fst myp, 2 * snd opp - snd myp) \<and>
                  \<not> blockedEdge (board s) opp (2 * fst opp - fst myp, 2 * snd opp - snd myp))"
  shows "set (jumpMoves s myp opp) - {myp} =
     {x. (x = (fst opp + (snd opp - snd myp), snd opp + (fst opp - fst myp)) \<or>
          x = (fst opp - (snd opp - snd myp), snd opp - (fst opp - fst myp))) \<and>
         inBounds s x \<and> \<not> blockedEdge (board s) opp x}"
proof -
  have dest: "(fst opp + (fst opp - fst myp), snd opp + (snd opp - snd myp))
      = (2 * fst opp - fst myp, 2 * snd opp - snd myp)" by simp
  have open_edge: "\<not> blockedEdge (board s) myp opp" using nb by (simp add: neighbors_iff)
  note unit = neighbor_unit[OF nb]
  have jm: "set (jumpMoves s myp opp) =
      {side. \<exists>d \<in> {(-1, 0), (1, 0), (0, -1), (0, 1)}. side = (fst opp + fst d, snd opp + snd d) \<and>
         inBounds s side \<and> \<not> blockedEdge (board s) opp side}"
    using nojump open_edge unfolding jumpMoves_def Let_def dest by auto
  define ur where "ur = fst opp - fst myp"
  define uc where "uc = snd opp - snd myp"
  have unit': "(ur = -1 \<and> uc = 0) \<or> (ur = 1 \<and> uc = 0) \<or> (ur = 0 \<and> uc = -1) \<or> (ur = 0 \<and> uc = 1)"
    using unit unfolding ur_def uc_def by linarith
  have perp: "(a = uc \<and> b = ur) \<or> (a = - uc \<and> b = - ur)"
    if "(a = -1 \<and> b = 0) \<or> (a = 1 \<and> b = 0) \<or> (a = 0 \<and> b = -1) \<or> (a = 0 \<and> b = 1)"
      and "\<not> (a = - ur \<and> b = - uc)" and "\<not> (a = ur \<and> b = uc)" for a b :: int
    using unit' that by (elim disjE conjE) simp_all
  have dirs: "(a = -1 \<and> b = 0) \<or> (a = 1 \<and> b = 0) \<or> (a = 0 \<and> b = -1) \<or> (a = 0 \<and> b = 1)"
    and notown: "\<not> (a = - ur \<and> b = - uc)"
    if "(a = uc \<and> b = ur) \<or> (a = - uc \<and> b = - ur)" for a b :: int
    using unit' that by (elim disjE conjE; simp)+
  have mem: "x \<in> set (jumpMoves s myp opp) \<longleftrightarrow>
      ((fst x - fst opp = -1 \<and> snd x - snd opp = 0) \<or> (fst x - fst opp = 1 \<and> snd x - snd opp = 0) \<or>
       (fst x - fst opp = 0 \<and> snd x - snd opp = -1) \<or> (fst x - fst opp = 0 \<and> snd x - snd opp = 1)) \<and>
      inBounds s x \<and> \<not> blockedEdge (board s) opp x" for x
  proof -
    have "(\<exists>d \<in> {(-1, 0), (1, 0), (0, -1), (0, 1)}. x = (fst opp + fst d, snd opp + snd d)) \<longleftrightarrow>
      ((fst x - fst opp = -1 \<and> snd x - snd opp = 0) \<or> (fst x - fst opp = 1 \<and> snd x - snd opp = 0) \<or>
       (fst x - fst opp = 0 \<and> snd x - snd opp = -1) \<or> (fst x - fst opp = 0 \<and> snd x - snd opp = 1))"
      by (cases x) auto
    then show ?thesis unfolding jm by blast
  qed
  have own: "x = myp \<longleftrightarrow> (fst x - fst opp = - ur \<and> snd x - snd opp = - uc)" for x
    unfolding ur_def uc_def by (cases x; cases myp) auto
  have straight: "x = (2 * fst opp - fst myp, 2 * snd opp - snd myp) \<longleftrightarrow>
      (fst x - fst opp = ur \<and> snd x - snd opp = uc)" for x
    unfolding ur_def uc_def by (cases x) auto
  have side: "(x = (fst opp + (snd opp - snd myp), snd opp + (fst opp - fst myp)) \<or>
          x = (fst opp - (snd opp - snd myp), snd opp - (fst opp - fst myp))) \<longleftrightarrow>
      ((fst x - fst opp = uc \<and> snd x - snd opp = ur) \<or> (fst x - fst opp = - uc \<and> snd x - snd opp = - ur))" for x
    unfolding ur_def uc_def by (cases x) auto
  show ?thesis
  proof (intro set_eqI iffI)
    fix x assume "x \<in> set (jumpMoves s myp opp) - {myp}"
    then have xin: "x \<in> set (jumpMoves s myp opp)" and ne: "x \<noteq> myp" by simp_all
    from xin[unfolded mem]
    have d: "(fst x - fst opp = -1 \<and> snd x - snd opp = 0) \<or> (fst x - fst opp = 1 \<and> snd x - snd opp = 0) \<or>
       (fst x - fst opp = 0 \<and> snd x - snd opp = -1) \<or> (fst x - fst opp = 0 \<and> snd x - snd opp = 1)"
      and ok: "inBounds s x" "\<not> blockedEdge (board s) opp x"
      by blast+
    have nd: "x \<noteq> (2 * fst opp - fst myp, 2 * snd opp - snd myp)" using nojump ok by blast
    from perp[OF d ne[unfolded own] nd[unfolded straight]] ok
    show "x \<in> {x. (x = (fst opp + (snd opp - snd myp), snd opp + (fst opp - fst myp)) \<or>
          x = (fst opp - (snd opp - snd myp), snd opp - (fst opp - fst myp))) \<and>
         inBounds s x \<and> \<not> blockedEdge (board s) opp x}"
      unfolding mem_Collect_eq side by simp
  next
    fix x assume "x \<in> {x. (x = (fst opp + (snd opp - snd myp), snd opp + (fst opp - fst myp)) \<or>
          x = (fst opp - (snd opp - snd myp), snd opp - (fst opp - fst myp))) \<and>
         inBounds s x \<and> \<not> blockedEdge (board s) opp x}"
    then have x: "(fst x - fst opp = uc \<and> snd x - snd opp = ur) \<or> (fst x - fst opp = - uc \<and> snd x - snd opp = - ur)"
      and ok: "inBounds s x" "\<not> blockedEdge (board s) opp x"
      unfolding mem_Collect_eq side by simp_all
    have "x \<in> set (jumpMoves s myp opp)" unfolding mem using dirs[OF x] ok by blast
    moreover have "x \<noteq> myp" unfolding own using notown[OF x] .
    ultimately show "x \<in> set (jumpMoves s myp opp) - {myp}" by simp
  qed
qed

subsection \<open>Breadth-first search finds the shortest distance\<close>

lemma cdist_walk: "connected b s v \<Longrightarrow> (s, v) \<in> edges b ^^ cdist b s v"
  unfolding connected_def cdist_def by (rule LeastI_ex)

lemma cdist_le: "(s, v) \<in> edges b ^^ n \<Longrightarrow> cdist b s v \<le> n"
  unfolding cdist_def by (rule Least_le)

lemma connected_start: "connected b s s"
  unfolding connected_def by (rule exI[of _ 0]) simp

lemma cdist_start: "cdist b s s = 0"
  using cdist_le[where n = 0 and s = s and v = s and b = b] by simp

lemma connected_step:
  assumes "connected b s u" "v \<in> set (neighbors b u)"
  shows "connected b s v" "cdist b s v \<le> Suc (cdist b s u)"
proof -
  have e: "(u, v) \<in> edges b" using assms(2) by (simp add: edges_def)
  with cdist_walk[OF assms(1)] have w: "(s, v) \<in> edges b ^^ Suc (cdist b s u)" by auto
  then show "connected b s v" unfolding connected_def by blast
  from w show "cdist b s v \<le> Suc (cdist b s u)" by (rule cdist_le)
qed

lemma cdist_pred:
  assumes "connected b s v" "cdist b s v = Suc n"
  shows "\<exists>u. connected b s u \<and> cdist b s u = n \<and> v \<in> set (neighbors b u)"
proof -
  from cdist_walk[OF assms(1)] assms(2) have "(s, v) \<in> edges b ^^ Suc n" by simp
  then obtain u where u: "(s, u) \<in> edges b ^^ n" "(u, v) \<in> edges b" by auto
  then have c: "connected b s u" and nb: "v \<in> set (neighbors b u)"
    by (auto simp: connected_def edges_def)
  have "cdist b s u \<le> n" using u(1) by (rule cdist_le)
  moreover have "Suc n \<le> Suc (cdist b s u)" using connected_step(2)[OF c nb] assms(2) by simp
  ultimately have "cdist b s u = n" by simp
  with c nb show ?thesis by blast
qed

lemma bfs_push_shape:
  "bfs_push d vs seen q = (seen', q') \<Longrightarrow>
     \<exists>new. seen' = seen @ new \<and> q' = q @ map (\<lambda>v. (v, d + 1)) new \<and> set new = set vs - set seen"
proof (induction d vs seen q rule: bfs_push.induct)
  case (1 d seen q)
  then show ?case by simp
next
  case (2 d v vs seen q)
  show ?case
  proof (cases "v \<in> set seen")
    case True
    with 2(3) have "bfs_push d vs seen q = (seen', q')" by simp
    from 2(1)[OF True this] obtain new where
      "seen' = seen @ new" "q' = q @ map (\<lambda>v. (v, d + 1)) new" "set new = set vs - set seen"
      by blast
    with True show ?thesis by (intro exI[of _ new]) auto
  next
    case False
    with 2(3) have "bfs_push d vs (set_add v seen) (q @ [(v, d + 1)]) = (seen', q')" by simp
    from 2(2)[OF False this] obtain new where n:
      "seen' = set_add v seen @ new" "q' = (q @ [(v, d + 1)]) @ map (\<lambda>v. (v, d + 1)) new"
      "set new = set vs - set (set_add v seen)"
      by blast
    with False show ?thesis by (intro exI[of _ "v # new"]) (auto simp: set_add_def)
  qed
qed

lemma sorted_map_const: "sorted (map (\<lambda>x. c) xs)"
  by (induction xs) auto

lemma bfs_inv_init: "bfs_inv b s goals [s] [(s, 0)]"
proof -
  have "v = s" if "connected b s v" "cdist b s v = 0" for v
  proof -
    from cdist_walk[OF that(1)] that(2) have "(s, v) \<in> edges b ^^ 0" by simp
    then show ?thesis by simp
  qed
  then show ?thesis
    by (auto simp: bfs_inv_def connected_start cdist_start)
qed

lemma bfs_inv_step:
  assumes inv: "bfs_inv b s goals seen ((u, d) # q)"
    and ng: "fst u \<notin> set goals"
    and push: "bfs_push d (neighbors b u) seen q = (seen', q')"
  shows "bfs_inv b s goals seen' q'"
proof -
  from bfs_push_shape[OF push] obtain new where
    seen': "seen' = seen @ new" and q': "q' = q @ map (\<lambda>v. (v, d + 1)) new"
    and new: "set new = set (neighbors b u) - set seen" by blast
  from inv have s: "s \<in> set seen" and conn: "\<And>v. v \<in> set seen \<Longrightarrow> connected b s v"
    and useen: "u \<in> set seen" and ud: "cdist b s u = d"
    and qd: "\<And>v e. (v, e) \<in> set q \<Longrightarrow> v \<in> set seen \<and> cdist b s v = e"
    and srt: "sorted (d # map snd q)"
    and near: "\<And>v e. (v, e) \<in> set q \<Longrightarrow> e \<le> d + 1"
    and closed: "\<And>v. v \<in> set seen \<Longrightarrow> v \<noteq> u \<Longrightarrow> v \<notin> fst ` set q \<Longrightarrow>
        fst v \<notin> set goals \<and> set (neighbors b v) \<subseteq> set seen"
    and front: "\<And>v. connected b s v \<Longrightarrow> cdist b s v \<le> d \<Longrightarrow> v \<in> set seen"
    unfolding bfs_inv_def by auto
  have uconn: "connected b s u" using conn useen by blast
  have newd: "connected b s v \<and> cdist b s v = d + 1" if "v \<in> set new" for v
  proof -
    from that new have nb: "v \<in> set (neighbors b u)" and ns: "v \<notin> set seen" by auto
    from connected_step[OF uconn nb] ud have c: "connected b s v" and le: "cdist b s v \<le> d + 1"
      by simp_all
    have "\<not> cdist b s v \<le> d" using front[OF c] ns by blast
    with c le show ?thesis by simp
  qed
  have qge: "d \<le> e" if "(v, e) \<in> set q" for v e
    using srt that by force
  have bound: "d \<le> snd x \<and> snd x \<le> d + 1" if "x \<in> set q'" for x
  proof -
    from that have "x \<in> set q \<or> x \<in> (\<lambda>v. (v, d + 1)) ` set new" unfolding q' by auto
    then show ?thesis
    proof
      assume "x \<in> set q"
      then have "(fst x, snd x) \<in> set q" by simp
      from near[OF this] qge[OF this] show ?thesis by simp
    next
      assume "x \<in> (\<lambda>v. (v, d + 1)) ` set new"
      then show ?thesis by auto
    qed
  qed
  have c1: "s \<in> set seen'" using s seen' by simp
  have c2: "\<forall>v \<in> set seen'. connected b s v" using conn newd seen' by auto
  have c3: "\<forall>(v, e) \<in> set q'. v \<in> set seen' \<and> cdist b s v = e"
    using qd newd unfolding q' seen' by auto
  have c4: "sorted (map snd q')"
    using srt near unfolding q' by (auto simp: sorted_append comp_def sorted_map_const)
  have c5: "\<forall>x \<in> set q'. \<forall>y \<in> set q'. snd x \<le> snd y + 1"
  proof (intro ballI)
    fix x y assume "x \<in> set q'" "y \<in> set q'"
    then have "snd x \<le> d + 1" "d \<le> snd y"
      using bound by blast+
    then show "snd x \<le> snd y + 1" by simp
  qed
  have c6: "\<forall>v \<in> set seen'. v \<notin> fst ` set q' \<longrightarrow>
      fst v \<notin> set goals \<and> set (neighbors b v) \<subseteq> set seen'"
  proof (intro ballI impI)
    fix v assume v: "v \<in> set seen'" "v \<notin> fst ` set q'"
    have vnew: "v \<notin> set new" using v(2) unfolding q' by force
    with v(1) seen' have vs: "v \<in> set seen" by simp
    show "fst v \<notin> set goals \<and> set (neighbors b v) \<subseteq> set seen'"
    proof (cases "v = u")
      case True
      have "set (neighbors b u) \<subseteq> set seen'" using new seen' by auto
      with True ng show ?thesis by simp
    next
      case False
      have "v \<notin> fst ` set q" using v(2) unfolding q' by auto
      from closed[OF vs False this] show ?thesis using seen' by auto
    qed
  qed
  have c7: "\<forall>v. q' \<noteq> [] \<and> connected b s v \<and> cdist b s v \<le> snd (hd q') \<longrightarrow> v \<in> set seen'"
  proof (intro allI impI)
    fix v assume v: "q' \<noteq> [] \<and> connected b s v \<and> cdist b s v \<le> snd (hd q')"
    then have vc: "connected b s v" by simp
    have hdin: "hd q' \<in> set q'" using v by simp
    then have xle: "snd (hd q') \<le> d + 1" using bound by blast
    show "v \<in> set seen'"
    proof (cases "cdist b s v \<le> d")
      case True
      with vc front seen' show ?thesis by simp
    next
      case False
      with v xle have dv: "cdist b s v = Suc d" and hd1: "snd (hd q') = Suc d" by simp_all
      from cdist_pred[OF vc dv] obtain p where
        p: "connected b s p" "cdist b s p = d" "v \<in> set (neighbors b p)" by blast
      have ps: "p \<in> set seen" using front[OF p(1)] p(2) by simp
      show ?thesis
      proof (cases "p = u")
        case True
        with p(3) new seen' show ?thesis by auto
      next
        case pu: False
        show ?thesis
        proof (cases "p \<in> fst ` set q")
          case True
          then obtain e where pe: "(p, e) \<in> set q" by force
          with qd p(2) have e: "e = d" by blast
          from pe have qne: "q \<noteq> []" by auto
          then have "hd q' = hd q" unfolding q' by simp
          moreover have "snd (hd q) \<le> e"
            using srt pe qne by (cases q) force+
          ultimately show ?thesis using hd1 e by simp
        next
          case False
          from closed[OF ps pu False] p(3) seen' show ?thesis by auto
        qed
      qed
    qed
  qed
  show ?thesis unfolding bfs_inv_def using c1 c2 c3 c4 c5 c6 c7 by blast
qed

lemma goalDist_SomeI:
  assumes "(s, t) \<in> edges b ^^ n" "fst t \<in> set goals"
    and "\<And>m t'. (s, t') \<in> edges b ^^ m \<Longrightarrow> fst t' \<in> set goals \<Longrightarrow> n \<le> m"
  shows "goalDist b s goals = Some n"
proof -
  have "(LEAST k. \<exists>t. (s, t) \<in> edges b ^^ k \<and> fst t \<in> set goals) = n"
    using assms by (intro Least_equality) blast+
  moreover have "\<exists>n t. (s, t) \<in> edges b ^^ n \<and> fst t \<in> set goals"
    using assms(1,2) by blast
  ultimately show ?thesis unfolding goalDist_def by (simp only: if_True)
qed

lemma goalDist_NoneI:
  assumes "\<And>m t. (s, t) \<in> edges b ^^ m \<Longrightarrow> fst t \<notin> set goals"
  shows "goalDist b s goals = None"
  using assms unfolding goalDist_def by auto

lemma closed_contains_walks:
  assumes "s \<in> S" and "\<And>v. v \<in> S \<Longrightarrow> set (neighbors b v) \<subseteq> S"
  shows "(s, t) \<in> edges b ^^ n \<Longrightarrow> t \<in> S"
proof (induction n arbitrary: t)
  case 0
  with assms(1) show ?case by simp
next
  case (Suc n)
  then obtain u where "(s, u) \<in> edges b ^^ n" "(u, t) \<in> edges b" by auto
  with Suc.IH[of u] assms(2)[of u] show ?case by (auto simp: edges_def)
qed

lemma bfs_loop_correct:
  "bfs_inv b s goals seen q \<Longrightarrow> bfs_loop b goals seen q = goalDist b s goals"
proof (induction b goals seen q rule: bfs_loop.induct)
  case (1 b goals seen)
  then have s: "s \<in> set seen"
    and closed: "\<And>v. v \<in> set seen \<Longrightarrow> fst v \<notin> set goals \<and> set (neighbors b v) \<subseteq> set seen"
    unfolding bfs_inv_def by auto
  have "goalDist b s goals = None"
  proof (rule goalDist_NoneI)
    fix m t assume "(s, t) \<in> edges b ^^ m"
    then have "t \<in> set seen" using s closed by (intro closed_contains_walks[of s "set seen" b t m]) auto
    with closed show "fst t \<notin> set goals" by blast
  qed
  then show ?case by simp
next
  case (2 b goals seen u d q)
  show ?case
  proof (cases "fst u \<in> set goals")
    case True
    from 2(2) have useen: "u \<in> set seen" and ud: "cdist b s u = d"
      and conn: "connected b s u"
      and srt: "sorted (d # map snd q)"
      and qd: "\<And>v e. (v, e) \<in> set q \<Longrightarrow> cdist b s v = e"
      and closed: "\<And>v. v \<in> set seen \<Longrightarrow> v \<noteq> u \<Longrightarrow> v \<notin> fst ` set q \<Longrightarrow> fst v \<notin> set goals"
      and front: "\<And>v. connected b s v \<Longrightarrow> cdist b s v \<le> d \<Longrightarrow> v \<in> set seen"
      unfolding bfs_inv_def by auto
    have "goalDist b s goals = Some d"
    proof (rule goalDist_SomeI[of s u])
      show "(s, u) \<in> edges b ^^ d" using cdist_walk[OF conn] ud by simp
      show "fst u \<in> set goals" by (rule True)
    next
      fix m t' assume w: "(s, t') \<in> edges b ^^ m" and g: "fst t' \<in> set goals"
      show "d \<le> m"
      proof (rule ccontr)
        assume "\<not> d \<le> m"
        with cdist_le[OF w] have lt: "cdist b s t' < d" by simp
        have c: "connected b s t'" using w unfolding connected_def by blast
        from front[OF c] lt have ts: "t' \<in> set seen" by simp
        have "t' \<noteq> u" using lt ud by auto
        moreover have "t' \<notin> fst ` set q"
        proof
          assume "t' \<in> fst ` set q"
          then obtain e where e: "(t', e) \<in> set q" by force
          from qd[OF e] lt have "e < d" by simp
          moreover from srt e have "d \<le> e" by force
          ultimately show False by simp
        qed
        ultimately show False using closed[OF ts] g by blast
      qed
    qed
    with True show ?thesis by simp
  next
    case False
    obtain seen' q' where push: "bfs_push d (neighbors b u) seen q = (seen', q')"
      by (cases "bfs_push d (neighbors b u) seen q")
    from bfs_inv_step[OF 2(2) False push] have "bfs_inv b s goals seen' q'" .
    from 2(1)[OF False push[symmetric] this] False push show ?thesis by simp
  qed
qed

lemma bfsDistToGoal_correct: "bfsDistToGoal b start goals = goalDist b start goals"
  unfolding bfsDistToGoal_def by (rule bfs_loop_correct) (rule bfs_inv_init)

lemma pathExistsFor_iff:
  "pathExistsFor b start goals \<longleftrightarrow> (\<exists>t. connected b start t \<and> fst t \<in> set goals)"
  unfolding pathExistsFor_def bfsDistToGoal_correct goalDist_def connected_def by auto










lemma legalWallMoves_loop_eq:
  assumes "owners_ok (board s)"
  shows "legalWallMoves_loop ws cand s = Return (cand @ filter (wallOk s) ws) s"
proof (induction ws arbitrary: cand)
  case Nil
  show ?case by simp
next
  case (Cons w ws)
  show ?case
  proof (cases "wallLegal (board s) w")
    case False
    then show ?thesis using Cons by (simp add: wallOk_def)
  next
    case True
    from placeWall_legal[OF True] obtain b1 where b1: "placeWall (board s) w None = Inr b1" by blast
    from place_remove[OF assms b1] have "s\<lparr>board := removeWall b1 w\<rparr> = s" by simp
    with True b1 show ?thesis using Cons by (simp add: wallOk_def Let_def)
  qed
qed

lemma legalWallMoves_eq:
  "owners_ok (board s) \<Longrightarrow> legalWallMoves s = Return (legalWallList s) s"
  by (simp add: legalWallMoves_def legalWallList_def Let_def legalWallMoves_loop_eq)

lemma legalMoves_eq:
  "owners_ok (board s) \<Longrightarrow>
     legalMoves s = Return (map PAWN (legalPawnMoves s) @ map WALL (legalWallList s)) s"
  by (simp add: legalMoves_def Let_def legalWallMoves_eq)

lemma set_alist_update_keys: "fst ` set (AList.update k v m) = insert k (fst ` set m)"
  by (induction m) auto

lemma placeWall_owners_ok:
  assumes "owners_ok b" "placeWall b w owner = Inr b1"
  shows "owners_ok b1"
proof -
  obtain r c ori where w: "w = (r, c, ori)" by (cases w)
  from assms(2) have legal: "wallLegal b w" by (auto simp: placeWall_def split: if_splits)
  show ?thesis
  proof (cases "ori = H")
    case True
    from assms(2) legal w True have "b1 = b\<lparr>hWalls := set_add (r, c) (hWalls b),
        hOwners := (case owner of None \<Rightarrow> hOwners b | Some p \<Rightarrow> AList.update (r, c) p (hOwners b))\<rparr>"
      by (simp add: placeWall_def)
    with assms(1) show ?thesis
      by (cases owner) (auto simp: owners_ok_def set_add_def set_alist_update_keys)
  next
    case False
    from assms(2) legal w False have "b1 = b\<lparr>vWalls := set_add (r, c) (vWalls b),
        vOwners := (case owner of None \<Rightarrow> vOwners b | Some p \<Rightarrow> AList.update (r, c) p (vOwners b))\<rparr>"
      by (simp add: placeWall_def)
    with assms(1) show ?thesis
      by (cases owner) (auto simp: owners_ok_def set_add_def set_alist_update_keys)
  qed
qed

lemma inBounds_history [simp]: "inBounds (s\<lparr>history := h\<rparr>) p = inBounds s p"
  by (simp add: inBounds_def)

lemma jumpMoves_history [simp]:
  "jumpMoves (s\<lparr>history := h\<rparr>) myp opp = jumpMoves s myp opp"
  unfolding jumpMoves_def Let_def by simp

lemma legalPawnMoves_history [simp]:
  "legalPawnMoves (s\<lparr>history := h\<rparr>) = legalPawnMoves s"
  unfolding legalPawnMoves_def Let_def by (simp cong: if_cong)

lemma applyMove_pawn_Return:
  assumes "applyMove s (PAWN dest) rec = Return u s'"
  shows "dest \<in> set (legalPawnMoves s)"
    and "s' = (if rec then s\<lparr>history := history s @ [snapshot s]\<rparr> else s)
        \<lparr>pawns := (pawns s)[toMove s := dest], toMove := 1 - toMove s\<rparr>"
proof -
  have "dest \<in> set (legalPawnMoves s) \<and>
    s' = (if rec then s\<lparr>history := history s @ [snapshot s]\<rparr> else s)
        \<lparr>pawns := (pawns s)[toMove s := dest], toMove := 1 - toMove s\<rparr>"
  proof (cases rec)
    case True
    with assms show ?thesis unfolding applyMove_def Let_def by (simp split: if_splits)
  next
    case False
    with assms show ?thesis unfolding applyMove_def Let_def by (simp split: if_splits)
  qed
  then show "dest \<in> set (legalPawnMoves s)"
    and "s' = (if rec then s\<lparr>history := history s @ [snapshot s]\<rparr> else s)
        \<lparr>pawns := (pawns s)[toMove s := dest], toMove := 1 - toMove s\<rparr>" by simp_all
qed



lemma bothPaths_history [simp]: "bothPaths b (s\<lparr>history := h\<rparr>) = bothPaths b s"
  by (simp add: bothPaths_def goalRows_def)

lemma applyMove_wall_unfold:
  "applyMove s (WALL w) rec =
     (if wallsLeft s ! toMove s \<le> 0
      then Throw NoWallsLeft (if rec then s\<lparr>history := history s @ [snapshot s]\<rparr> else s)
      else if \<not> wallLegal (board s) w
      then Throw IllegalPlacement (if rec then s\<lparr>history := history s @ [snapshot s]\<rparr> else s)
      else case placeWall (board s) w (Some (toMove s)) of
        Inl e \<Rightarrow> Throw e (if rec then s\<lparr>history := history s @ [snapshot s]\<rparr> else s)
      | Inr b1 \<Rightarrow>
          if \<not> bothPaths b1 s
          then Throw BlocksAllPaths
                 ((if rec then s\<lparr>history := history s @ [snapshot s]\<rparr> else s)\<lparr>board := removeWall b1 w\<rparr>)
          else Return () ((if rec then s\<lparr>history := history s @ [snapshot s]\<rparr> else s)
                 \<lparr>board := b1,
                  wallsLeft := (wallsLeft s)[toMove s := wallsLeft s ! toMove s - 1],
                  toMove := 1 - toMove s\<rparr>))"
proof (cases rec)
  case True
  show ?thesis unfolding applyMove_def Let_def True by (simp split: sum.split)
next
  case False
  show ?thesis unfolding applyMove_def Let_def False by (simp split: sum.split)
qed

lemma applyMove_wall_Return:
  assumes "applyMove s (WALL w) rec = Return u s'"
  shows "\<exists>b1. placeWall (board s) w (Some (toMove s)) = Inr b1 \<and> bothPaths b1 s \<and>
     s' = (if rec then s\<lparr>history := history s @ [snapshot s]\<rparr> else s)
            \<lparr>board := b1,
             wallsLeft := (wallsLeft s)[toMove s := wallsLeft s ! toMove s - 1],
             toMove := 1 - toMove s\<rparr>"
proof (cases "placeWall (board s) w (Some (toMove s))")
  case (Inl e)
  with assms show ?thesis unfolding applyMove_wall_unfold by (simp split: if_splits)
next
  case (Inr b1)
  with assms show ?thesis unfolding applyMove_wall_unfold by (simp split: if_splits)
qed









subsection \<open>The search returns and leaves the state as it was\<close>

lemma firstStep_rooted: "rooted parent cur \<Longrightarrow> \<exists>r. firstStep parent start cur = Some r"
proof (induction rule: rooted.induct)
  case (root x)
  then show ?case by (subst firstStep.simps) simp
next
  case (child x p)
  then show ?case by (subst firstStep.simps) auto
qed

lemma reconstructDist_rooted: "rooted parent cur \<Longrightarrow> \<exists>n. reconstructDist parent cur d = Some n"
proof (induction arbitrary: d rule: rooted.induct)
  case (root x)
  then show ?case by (subst reconstructDist.simps) simp
next
  case (child x p)
  from child.IH[of "d + 1"] child.hyps(1) show ?case by (subst reconstructDist.simps) simp
qed

lemma rooted_update:
  assumes "rooted parent x" "x \<in> S" "ran parent \<subseteq> S" "v \<notin> S"
  shows "rooted (parent(v \<mapsto> u)) x"
  using assms
proof (induction rule: rooted.induct)
  case (root x)
  then have "(parent(v \<mapsto> u)) x = None" by auto
  then show ?case by (rule rooted.root)
next
  case (child x p)
  have pS: "p \<in> S" using ranI[of parent x p] child.hyps(1) child.prems(2) by blast
  have "(parent(v \<mapsto> u)) x = Some p" using child.hyps(1) child.prems(1,3) by auto
  moreover have "rooted (parent(v \<mapsto> u)) p" using child.IH pS child.prems by blast
  ultimately show ?case by (rule rooted.child)
qed

lemma bfsn_inv_add:
  assumes inv: "bfsn_inv seen q parent" and u: "u \<in> set seen" and v: "v \<notin> set seen"
  shows "bfsn_inv (set_add v seen) (q @ [v]) (parent(v \<mapsto> u))"
proof -
  from inv have q: "set q \<subseteq> set seen" and r: "ran parent \<subseteq> set seen"
    and ro: "\<And>x. x \<in> set seen \<Longrightarrow> rooted parent x" by (auto simp: bfsn_inv_def)
  have old: "rooted (parent(v \<mapsto> u)) x" if "x \<in> set seen" for x
    using ro[OF that] that r v by (rule rooted_update)
  have "(parent(v \<mapsto> u)) v = Some u" by simp
  then have new: "rooted (parent(v \<mapsto> u)) v" using old[OF u] by (rule rooted.child)
  have "ran (parent(v \<mapsto> u)) \<subseteq> insert u (ran parent)" by (auto simp: ran_def)
  with r u have r': "ran (parent(v \<mapsto> u)) \<subseteq> set (set_add v seen)" by (auto simp: set_add_def)
  show ?thesis unfolding bfsn_inv_def using q r' old new v by (auto simp: set_add_def)
qed

lemma bfsn_push_inv:
  "bfsn_push u vs seen q parent = (seen', q', parent') \<Longrightarrow> bfsn_inv seen q parent \<Longrightarrow>
   u \<in> set seen \<Longrightarrow> bfsn_inv seen' q' parent'"
proof (induction u vs seen q parent rule: bfsn_push.induct)
  case (1 u seen q parent)
  then show ?case by simp
next
  case (2 u v vs seen q parent)
  show ?case
  proof (cases "v \<in> set seen")
    case True
    with 2 show ?thesis by simp
  next
    case False
    with 2(3) have eq: "bfsn_push u vs (set_add v seen) (q @ [v]) (parent(v \<mapsto> u)) = (seen', q', parent')"
      by simp
    have "bfsn_inv (set_add v seen) (q @ [v]) (parent(v \<mapsto> u))"
      using 2(4,5) False by (rule bfsn_inv_add)
    moreover have "u \<in> set (set_add v seen)" using 2(5) by (simp add: set_add_def)
    ultimately show ?thesis using 2(2)[OF False eq] by blast
  qed
qed

lemma bfsn_loop_rooted:
  "bfsn_loop b goals seen q parent = Some (g, par) \<Longrightarrow> bfsn_inv seen q parent \<Longrightarrow> rooted par g"
proof (induction b goals seen q parent rule: bfsn_loop.induct)
  case (1 b goals seen parent)
  then show ?case by simp
next
  case (2 b goals seen u q parent)
  from 2(3) have useen: "u \<in> set seen" and inv: "bfsn_inv seen q parent"
    by (auto simp: bfsn_inv_def)
  show ?case
  proof (cases "fst u \<in> set goals")
    case True
    with 2(2) have "g = u" "par = parent" by simp_all
    with 2(3) useen show ?thesis by (simp add: bfsn_inv_def)
  next
    case False
    obtain seen' q' parent' where push: "bfsn_push u (neighbors b u) seen q parent = (seen', q', parent')"
      by (cases "bfsn_push u (neighbors b u) seen q parent") auto
    from bfsn_push_inv[OF push inv useen] have inv': "bfsn_inv seen' q' parent'" .
    from 2(2) False push have "bfsn_loop b goals seen' q' parent' = Some (g, par)" by simp
    from 2(1)[OF False push[symmetric] refl this inv'] show ?thesis .
  qed
qed

lemma bfsNextStepToGoal_total: "\<exists>res. bfsNextStepToGoal b start goals = Some res"
proof (cases "bfsn_loop b goals [start] [start] Map.empty")
  case None
  then show ?thesis by (simp add: bfsNextStepToGoal_def)
next
  case (Some r)
  obtain g par where r: "r = (g, par)" by (cases r)
  have inv: "bfsn_inv [start] [start] Map.empty"
    by (auto simp: bfsn_inv_def intro: rooted.root)
  have "bfsn_loop b goals [start] [start] Map.empty = Some (g, par)"
    unfolding Some r by (rule refl)
  from bfsn_loop_rooted[OF this inv] have ro: "rooted par g" .
  from firstStep_rooted[OF ro, of start] obtain cur where c: "firstStep par start g = Some cur" by blast
  from reconstructDist_rooted[OF ro, of 0] obtain n where n: "reconstructDist par g 0 = Some n" by blast
  from Some r c n show ?thesis by (simp add: bfsNextStepToGoal_def)
qed

lemma shortestPathNext_total: "\<exists>res. shortestPathNext s me = Some res"
  unfolding shortestPathNext_def by (rule bfsNextStepToGoal_total)

lemma legalMoves_list: "owners_ok (board s) \<Longrightarrow> legalMoves s = Return (legalMoveList s) s"
  by (simp add: legalMoves_eq legalMoveList_def)

lemma blockedEdge_walls:
  "hWalls b' = hWalls b \<Longrightarrow> vWalls b' = vWalls b \<Longrightarrow> blockedEdge b' p q = blockedEdge b p q"
  by (simp add: blockedEdge_def)

lemma neighbors_walls:
  assumes "N b' = N b" "hWalls b' = hWalls b" "vWalls b' = vWalls b"
  shows "neighbors b' p = neighbors b p"
proof -
  have "blockedEdge b' x y = blockedEdge b x y" for x y
    using assms(2,3) by (rule blockedEdge_walls)
  then show ?thesis unfolding neighbors_def assms(1) by simp
qed

lemma pathExistsFor_walls:
  assumes "N b' = N b" "hWalls b' = hWalls b" "vWalls b' = vWalls b"
  shows "pathExistsFor b' p goals = pathExistsFor b p goals"
proof -
  have "edges b' = edges b" unfolding edges_def by (simp add: neighbors_walls[OF assms])
  then show ?thesis unfolding pathExistsFor_iff connected_def by simp
qed

lemma placeWall_owner:
  assumes "placeWall b w None = Inr b1"
  shows "\<exists>b2. placeWall b w (Some p) = Inr b2 \<and> N b2 = N b1 \<and> hWalls b2 = hWalls b1 \<and> vWalls b2 = vWalls b1"
proof -
  obtain r c ori where w: "w = (r, c, ori)" by (cases w)
  from assms have legal: "wallLegal b w" by (auto simp: placeWall_def split: if_splits)
  with assms w show ?thesis by (cases "ori = H") (auto simp: placeWall_def)
qed

lemma apply_legal:
  assumes "mv \<in> set (legalMoveList s)"
  shows "\<exists>s'. applyMove s mv False = Return () s'"
proof (cases mv)
  case (PAWN dest)
  with assms have "dest \<in> set (legalPawnMoves s)" by (auto simp: legalMoveList_def)
  with PAWN show ?thesis by (simp add: applyMove_def)
next
  case (WALL w)
  with assms have "w \<in> set (legalWallList s)" by (auto simp: legalMoveList_def)
  then have wl: "\<not> wallsLeft s ! toMove s \<le> 0" and ok: "wallOk s w"
    by (auto simp: legalWallList_def split: if_splits)
  from ok obtain b1 where legal: "wallLegal (board s) w" and b1: "placeWall (board s) w None = Inr b1"
    and paths: "bothPaths b1 s"
    by (cases "placeWall (board s) w None") (auto simp: wallOk_def)
  from placeWall_owner[OF b1, of "toMove s"] obtain b2 where
    b2: "placeWall (board s) w (Some (toMove s)) = Inr b2"
    and same: "N b2 = N b1" "hWalls b2 = hWalls b1" "vWalls b2 = vWalls b1" by blast
  have "bothPaths b2 s" using paths unfolding bothPaths_def by (simp add: pathExistsFor_walls[OF same])
  with wl legal b2 WALL show ?thesis by (simp add: applyMove_wall_unfold)
qed

lemma applyMove_wf:
  assumes wf: "wf_state s" and ap: "applyMove s mv rec = Return u s'"
  shows "wf_state s'"
proof (cases mv)
  case (PAWN dest)
  from applyMove_pawn_Return(2)[OF ap[unfolded PAWN]] wf show ?thesis
    by (cases rec) (auto simp: wf_state_def)
next
  case (WALL w)
  from applyMove_wall_Return[OF ap[unfolded WALL]] obtain b1 where
    b1: "placeWall (board s) w (Some (toMove s)) = Inr b1"
    and s': "s' = (if rec then s\<lparr>history := history s @ [snapshot s]\<rparr> else s)
            \<lparr>board := b1,
             wallsLeft := (wallsLeft s)[toMove s := wallsLeft s ! toMove s - 1],
             toMove := 1 - toMove s\<rparr>" by blast
  from wf have "owners_ok (board s)" by (simp add: wf_state_def)
  from placeWall_owners_ok[OF this b1] placeWall_N[OF b1] wf show ?thesis
    unfolding s' by (cases rec) (auto simp: wf_state_def)
qed

lemma apply_restore:
  assumes "applyMove s mv False = Return u s1"
  shows "restore s1 (snapshot s) = s"
  using applyMove_frame[OF assms] by (intro restore_snapshot) simp_all

lemma scoreMoves_returns:
  assumes "\<forall>m \<in> set mvs. m \<in> set (legalMoveList s)"
  shows "\<exists>scored. scoreMoves mvs me spNext bk recent acc s = Return scored s \<and>
           map snd scored = map snd acc @ mvs"
  using assms
proof (induction mvs arbitrary: acc)
  case Nil
  show ?case by simp
next
  case (Cons mv mvs)
  from Cons.prems have "mv \<in> set (legalMoveList s)" by simp
  from apply_legal[OF this] obtain s1 where ap: "applyMove s mv False = Return () s1" by blast
  from apply_restore[OF ap] have rs: "restore s1 (snapshot s) = s" .
  from Cons.prems have "\<forall>m \<in> set mvs. m \<in> set (legalMoveList s)" by simp
  from Cons.IH[OF this, of "acc @ [(moveScore s1 mv me spNext bk recent, mv)]"]
  show ?case using ap rs by (simp add: Let_def)
qed

lemma orderedMoves_returns:
  assumes "owners_ok (board s)"
  shows "\<exists>mvs. orderedMoves s = Return mvs s \<and> set mvs = set (legalMoveList s)"
proof -
  from shortestPathNext_total obtain sp where sp: "shortestPathNext s (toMove s) = Some sp" by blast
  from scoreMoves_returns[of "legalMoveList s" s "toMove s" "snd sp" "backSquare s (toMove s)"
      "recentMySquares (history s) (toMove s) 6" "[]"]
  obtain scored where sc: "scoreMoves (legalMoveList s) (toMove s) (snd sp) (backSquare s (toMove s))
      (recentMySquares (history s) (toMove s) 6) [] s = Return scored s"
    and ms: "map snd scored = legalMoveList s" by auto
  have "set (map snd (sort_key (\<lambda>x. - fst x) scored)) = set (map snd scored)" by simp
  with ms have "set (map snd (sort_key (\<lambda>x. - fst x) scored)) = set (legalMoveList s)" by simp
  with sp sc legalMoves_list[OF assms] show ?thesis
    by (simp add: orderedMoves_def Let_def)
qed

lemma negamax_returns:
  "wf_state s \<Longrightarrow>
     \<exists>v mv seen'. negamax s depth alpha beta seen = Return (v, mv, seen') s \<and>
        (mv = None \<or> mv \<in> Some ` set (legalMoveList s))"
  and "wf_state s \<Longrightarrow> set mvs \<subseteq> set (legalMoveList s) \<Longrightarrow>
     \<exists>v mv seen'. negamax_moves mvs s d alpha beta seen bestVal bestMove = Return (v, mv, seen') s \<and>
        (mv = bestMove \<or> mv \<in> Some ` set mvs)"
proof (induction s depth alpha beta seen and mvs s d alpha beta seen bestVal bestMove
    rule: negamax_negamax_moves.induct)
  case (1 s depth alpha beta seen)
  show ?case
  proof (cases "posKey s \<in> set seen")
    case True
    then show ?thesis by (subst negamax.simps) (simp add: Let_def)
  next
    case notseen: False
    show ?thesis
    proof (cases "winner s")
      case (Some w)
      with notseen show ?thesis by (subst negamax.simps) (simp add: Let_def)
    next
      case None
      show ?thesis
      proof (cases depth)
        case 0
        with notseen None show ?thesis by (subst negamax.simps) (simp add: Let_def)
      next
        case (Suc n)
        from "1.prems" have "owners_ok (board s)" by (simp add: wf_state_def)
        from orderedMoves_returns[OF this] obtain mvs where
          om: "orderedMoves s = Return mvs s" and ms: "set mvs = set (legalMoveList s)" by blast
        from ms have sub: "set mvs \<subseteq> set (legalMoveList s)" by simp
        from "1.IH"[OF refl notseen refl None Suc om "1.prems" sub]
        obtain v mv seen' where
          r: "negamax_moves mvs s n alpha beta (set_add (posKey s) seen) NegInf None = Return (v, mv, seen') s"
          and mv: "mv = None \<or> mv \<in> Some ` set mvs" by blast
        have "negamax s depth alpha beta seen = Return (v, mv, set_delete (posKey s) seen') s"
          using notseen None Suc om r by (subst negamax.simps) (simp add: Let_def)
        with mv ms show ?thesis by auto
      qed
    qed
  qed
next
  case (2 s d alpha beta seen bestVal bestMove)
  show ?case by simp
next
  case (3 mv mvs s d alpha beta seen bestVal bestMove)
  from "3.prems"(2) have legal: "mv \<in> set (legalMoveList s)"
    and sub: "set mvs \<subseteq> set (legalMoveList s)" by simp_all
  from apply_legal[OF legal] obtain s1 where ap: "applyMove s mv False = Return () s1" by blast
  from applyMove_wf[OF "3.prems"(1) ap] have wf1: "wf_state s1" .
  from "3.IH"(1)[OF refl ap wf1] obtain vc m seen2 where
    ng: "negamax s1 d (num_neg beta) (num_neg alpha) seen = Return (vc, m, seen2) s1" by blast
  from apply_restore[OF ap] have rs: "restore s1 (snapshot s) = s" .
  define v where "v = num_neg vc"
  define bestMove1 where "bestMove1 = (if num_less bestVal v then Some mv else bestMove)"
  define bestVal1 where "bestVal1 = (if num_less bestVal v then v else bestVal)"
  define alpha1 where "alpha1 = (if num_less alpha bestVal1 then bestVal1 else alpha)"
  have bm: "bestMove1 = bestMove \<or> bestMove1 = Some mv" by (simp add: bestMove1_def)
  have step: "negamax_moves (mv # mvs) s d alpha beta seen bestVal bestMove =
      (if num_ge alpha1 beta then Return (bestVal1, bestMove1, seen2) s
       else negamax_moves mvs s d alpha1 beta seen2 bestVal1 bestMove1)"
    unfolding negamax_moves.simps Let_def ap ng result.case prod.case rs
      alpha1_def bestVal1_def bestMove1_def v_def by (rule refl)
  show ?case
  proof (cases "num_ge alpha1 beta")
    case True
    have "negamax_moves (mv # mvs) s d alpha beta seen bestVal bestMove = Return (bestVal1, bestMove1, seen2) s"
      unfolding step using True by (simp only: if_True)
    with bm show ?thesis by auto
  next
    case False
    have wfr: "wf_state (restore s1 (snapshot s))" using "3.prems"(1) rs by simp
    have subr: "set mvs \<subseteq> set (legalMoveList (restore s1 (snapshot s)))" using sub rs by simp
    have ih: "\<exists>v' mv' seen'. negamax_moves mvs (restore s1 (snapshot s)) d alpha1 beta seen2 bestVal1 bestMove1
        = Return (v', mv', seen') (restore s1 (snapshot s)) \<and> (mv' = bestMove1 \<or> mv' \<in> Some ` set mvs)"
      using False unfolding alpha1_def bestVal1_def bestMove1_def v_def
      by (rule "3.IH"(2)[OF refl ap ng refl refl refl refl refl refl refl _ wfr subr])
    then obtain v' mv' seen' where
      r: "negamax_moves mvs s d alpha1 beta seen2 bestVal1 bestMove1 = Return (v', mv', seen') s"
      and mv': "mv' = bestMove1 \<or> mv' \<in> Some ` set mvs" unfolding rs by blast
    have "negamax_moves (mv # mvs) s d alpha beta seen bestVal bestMove = Return (v', mv', seen') s"
      unfolding step using False r by (simp only: if_False)
    with mv' bm show ?thesis by auto
  qed
qed

lemma deepen_returns:
  "wf_state s \<Longrightarrow> best = None \<or> best \<in> Some ` set (legalMoveList s) \<Longrightarrow>
     \<exists>r. deepen now maxDepth timeLimitMs d best s = Return r s \<and>
         (r = None \<or> r \<in> Some ` set (legalMoveList s))"
proof (induction now maxDepth timeLimitMs d best s rule: deepen.induct)
  case (1 now maxDepth timeLimitMs d best s)
  show ?case
  proof (cases "of_nat d \<le> maxDepth")
    case False
    then show ?thesis using "1.prems"(2) by (subst deepen.simps) simp
  next
    case True
    from negamax_returns(1)[OF "1.prems"(1), of d NegInf PosInf "[]"] obtain v mv seen' where
      ng: "negamax s d NegInf PosInf [] = Return (v, mv, seen') s"
      and mv: "mv = None \<or> mv \<in> Some ` set (legalMoveList s)" by blast
    define best1 where "best1 = (case mv of None \<Rightarrow> best | Some m \<Rightarrow> Some m)"
    have b1: "best1 = None \<or> best1 \<in> Some ` set (legalMoveList s)"
      using mv "1.prems"(2) by (cases mv) (auto simp: best1_def)
    have step: "deepen now maxDepth timeLimitMs d best s =
        (if now d - now 0 > timeLimitMs then Return best1 s
         else deepen now maxDepth timeLimitMs (d + 1) best1 s)"
      by (subst deepen.simps) (simp add: True ng best1_def Let_def)
    show ?thesis
    proof (cases "now d - now 0 > timeLimitMs")
      case over: True
      with step b1 show ?thesis by simp
    next
      case under: False
      from "1.IH"[OF True ng refl refl _ under "1.prems"(1)] b1
      have "\<exists>r. deepen now maxDepth timeLimitMs (d + 1) best1 s = Return r s \<and>
          (r = None \<or> r \<in> Some ` set (legalMoveList s))"
        unfolding best1_def by (auto split: option.splits)
      with step under show ?thesis by simp
    qed
  qed
qed

lemma searchWithTime_returns:
  assumes wf: "wf_state s"
  shows "\<exists>r. searchWithTime now s maxDepth timeLimitMs = Return r s \<and>
     (case r of None \<Rightarrow> legalMoveList s = [] | Some mv \<Rightarrow> mv \<in> set (legalMoveList s))"
proof -
  define slow where "slow = (case deepen now maxDepth timeLimitMs 1 None s of
                    Throw e s1 \<Rightarrow> Throw e s1
                  | Diverge \<Rightarrow> Diverge
                  | Return best s1 \<Rightarrow>
                      (case best of
                         Some m \<Rightarrow> Return (Some m) s1
                       | None \<Rightarrow>
                           (case legalMoves s1 of
                              Throw e s2 \<Rightarrow> Throw e s2
                            | Diverge \<Rightarrow> Diverge
                            | Return mvs s2 \<Rightarrow> Return (nth_opt mvs 0) s2)))"
  from wf have ok: "owners_ok (board s)" by (simp add: wf_state_def)
  from deepen_returns[OF wf, of None now maxDepth timeLimitMs 1] obtain best where
    dp: "deepen now maxDepth timeLimitMs 1 None s = Return best s"
    and best: "best = None \<or> best \<in> Some ` set (legalMoveList s)" by auto
  have slow_ok: "\<exists>r. slow = Return r s \<and>
     (case r of None \<Rightarrow> legalMoveList s = [] | Some mv \<Rightarrow> mv \<in> set (legalMoveList s))"
  proof (cases best)
    case (Some m)
    have "slow = Return (Some m) s" unfolding slow_def dp Some by simp
    with best Some show ?thesis by auto
  next
    case None
    have "slow = Return (nth_opt (legalMoveList s) 0) s"
      unfolding slow_def dp None by (simp add: legalMoves_list[OF ok])
    then show ?thesis by (cases "legalMoveList s") (auto simp: nth_opt_def)
  qed
  from shortestPathNext_total obtain sp where sp: "shortestPathNext s (toMove s) = Some sp" by blast
  have unfold: "searchWithTime now s maxDepth timeLimitMs =
      (if wallsLeft s ! toMove s \<le> 0 then
         (case snd sp of
            None \<Rightarrow> slow
          | Some nxt \<Rightarrow> if nxt \<in> set (legalPawnMoves s) then Return (Some (PAWN nxt)) s else slow)
       else slow)"
    unfolding searchWithTime_def Let_def slow_def sp option.case by (rule refl)
  show ?thesis
  proof (cases "wallsLeft s ! toMove s \<le> 0")
    case False
    with unfold slow_ok show ?thesis by simp
  next
    case True
    show ?thesis
    proof (cases "snd sp")
      case None
      with unfold True slow_ok show ?thesis by simp
    next
      case (Some nxt)
      show ?thesis
      proof (cases "nxt \<in> set (legalPawnMoves s)")
        case False
        with unfold True Some slow_ok show ?thesis by simp
      next
        case inl: True
        then have "PAWN nxt \<in> set (legalMoveList s)" by (simp add: legalMoveList_def)
        with unfold True Some inl show ?thesis by simp
      qed
    qed
  qed
qed

subsection \<open>\<open>MinPQ\<close> keeps the heap order; A* finds the shortest distance\<close>

lemma swap_nth:
  assumes "i < length a" "j < length a"
  shows "swap a i j ! i = a ! j" "swap a i j ! j = a ! i"
    "k \<noteq> i \<Longrightarrow> k \<noteq> j \<Longrightarrow> swap a i j ! k = a ! k"
  using assms by (auto simp: swap_def nth_list_update)

lemma is_heap_min:
  assumes "is_heap a" "i < length a"
  shows "snd (a ! 0) \<le> snd (a ! i)"
  using assms(2)
proof (induction i rule: less_induct)
  case (less i)
  show ?case
  proof (cases "i = 0")
    case True
    then show ?thesis by simp
  next
    case False
    then have p: "(i - 1) div 2 < i" by simp
    with less.prems have "(i - 1) div 2 < length a" by simp
    from less.IH[OF p this] have "snd (a ! 0) \<le> snd (a ! ((i - 1) div 2))" .
    also have "\<dots> \<le> snd (a ! i)" using assms(1) less.prems False by (simp add: is_heap_def)
    finally show ?thesis .
  qed
qed

lemma siftUp_heap: "i < length a \<Longrightarrow> heap_up a i \<Longrightarrow> is_heap (siftUp a i)"
proof (induction a i rule: siftUp.induct)
  case (1 a i)
  define p where "p = (i - 1) div 2"
  from "1.prems"(2) have c1: "\<And>j. j < length a \<Longrightarrow> 0 < j \<Longrightarrow> j \<noteq> i \<Longrightarrow> snd (a ! ((j - 1) div 2)) \<le> snd (a ! j)"
    and c2: "\<And>j. j < length a \<Longrightarrow> 0 < j \<Longrightarrow> (j - 1) div 2 = i \<Longrightarrow> 0 < i \<Longrightarrow> snd (a ! p) \<le> snd (a ! j)"
    unfolding heap_up_def p_def by blast+
  show ?case
  proof (cases "i > 0")
    case False
    then have "siftUp a i = a" by (subst siftUp.simps) simp
    moreover have "is_heap a" unfolding is_heap_def using c1 False by auto
    ultimately show ?thesis by simp
  next
    case pos: True
    then have pi: "p < i" and pl: "p < length a" using "1.prems"(1) by (simp_all add: p_def)
    show ?thesis
    proof (cases "snd (a ! p) \<le> snd (a ! i)")
      case True
      then have "siftUp a i = a" using pos by (subst siftUp.simps) (simp add: p_def)
      moreover have "is_heap a" unfolding is_heap_def
      proof (intro allI impI)
        fix j assume "j < length a" "0 < j"
        then show "snd (a ! ((j - 1) div 2)) \<le> snd (a ! j)"
          using c1[of j] True by (cases "j = i") (simp_all add: p_def)
      qed
      ultimately show ?thesis by simp
    next
      case False
      then have lt: "snd (a ! i) < snd (a ! p)" by simp
      define a' where "a' = swap a p i"
      have len: "length a' = length a" by (simp add: a'_def)
      have ap: "a' ! p = a ! i" and ai: "a' ! i = a ! p"
        and ak: "\<And>k. k \<noteq> p \<Longrightarrow> k \<noteq> i \<Longrightarrow> a' ! k = a ! k"
        unfolding a'_def using swap_nth[OF pl "1.prems"(1)] by simp_all
      have up: "heap_up a' p" unfolding heap_up_def len
      proof (intro conjI allI impI)
        fix j assume j: "j < length a" "0 < j" "j \<noteq> p"
        show "snd (a' ! ((j - 1) div 2)) \<le> snd (a' ! j)"
        proof (cases "j = i")
          case True
          moreover have "(i - 1) div 2 = p" by (simp add: p_def)
          ultimately show ?thesis using lt ap ai by simp
        next
          case ji: False
          then have aj: "a' ! j = a ! j" using ak j(3) by simp
          consider "(j - 1) div 2 = i" | "(j - 1) div 2 = p" | "(j - 1) div 2 \<noteq> i" "(j - 1) div 2 \<noteq> p"
            by blast
          then show ?thesis
          proof cases
            case 1
            then show ?thesis using c2[OF j(1,2) 1 pos] ai aj by simp
          next
            case 2
            then show ?thesis using c1[OF j(1,2) ji] lt ap aj by simp
          next
            case 3
            then show ?thesis using c1[OF j(1,2) ji] ak aj by simp
          qed
        qed
      next
        fix j assume j: "j < length a" "0 < j" "(j - 1) div 2 = p" "0 < p"
        have pp: "(p - 1) div 2 < p" using j(4) by simp
        then have app: "a' ! ((p - 1) div 2) = a ! ((p - 1) div 2)" using ak pi by simp
        have le: "snd (a ! ((p - 1) div 2)) \<le> snd (a ! p)" using c1[OF pl j(4)] pi by simp
        show "snd (a' ! ((p - 1) div 2)) \<le> snd (a' ! j)"
        proof (cases "j = i")
          case True
          then show ?thesis using le app ai by simp
        next
          case False
          have "j \<noteq> p" using j(2,3) by auto
          then have "a' ! j = a ! j" using ak False by simp
          moreover have "snd (a ! p) \<le> snd (a ! j)" using c1[OF j(1,2) False] j(3) by simp
          ultimately show ?thesis using le app by simp
        qed
      qed
      have "is_heap (siftUp a' p)"
        using pos False up pl len unfolding a'_def p_def by (intro "1.IH") simp_all
      moreover have "siftUp a i = siftUp a' p"
        using pos False by (subst siftUp.simps) (simp add: p_def a'_def Let_def)
      ultimately show ?thesis by simp
    qed
  qed
qed

lemma pq_push_heap:
  assumes "is_heap a"
  shows "is_heap (pq_push a k pri)"
proof -
  have "heap_up (a @ [(k, pri)]) (length a)" unfolding heap_up_def
  proof (intro conjI allI impI)
    fix j assume j: "j < length (a @ [(k, pri)])" "0 < j" "j \<noteq> length a"
    then have jl: "j < length a" by simp
    then have "(j - 1) div 2 < length a" by simp
    with jl assms j(2) show "snd ((a @ [(k, pri)]) ! ((j - 1) div 2)) \<le> snd ((a @ [(k, pri)]) ! j)"
      by (simp add: nth_append is_heap_def)
  next
    fix j assume j: "j < length (a @ [(k, pri)])" "0 < j" "(j - 1) div 2 = length a"
    then have False by simp
    then show "snd ((a @ [(k, pri)]) ! ((length a - 1) div 2)) \<le> snd ((a @ [(k, pri)]) ! j)" ..
  qed
  then show ?thesis unfolding pq_push_def Let_def by (intro siftUp_heap) simp_all
qed

lemma child_iff: "0 < j \<and> (j - 1) div 2 = i \<longleftrightarrow> j = i * 2 + 1 \<or> j = i * 2 + 1 + 1" for i j :: nat
  by presburger

lemma siftDown_pick_child:
  "siftDown_pick a i = i \<or> siftDown_pick a i = i * 2 + 1 \<or> siftDown_pick a i = i * 2 + 1 + 1"
  by (simp add: siftDown_pick_def Let_def)

lemma siftDown_pick_least:
  assumes "j < length a" "j = i * 2 + 1 \<or> j = i * 2 + 1 + 1"
  shows "snd (a ! siftDown_pick a i) \<le> snd (a ! j)"
  using assms by (auto simp: siftDown_pick_def Let_def)

lemma siftDown_pick_less:
  "siftDown_pick a i \<noteq> i \<Longrightarrow> snd (a ! siftDown_pick a i) < snd (a ! i)"
  by (auto simp: siftDown_pick_def Let_def split: if_splits)

lemma siftDown_heap: "i < length a \<Longrightarrow> heap_down a i \<Longrightarrow> is_heap (siftDown a i)"
proof (induction a i rule: siftDown.induct)
  case (1 a i)
  define s where "s = siftDown_pick a i"
  from "1.prems"(2) have c1: "\<And>j. j < length a \<Longrightarrow> 0 < j \<Longrightarrow> (j - 1) div 2 \<noteq> i \<Longrightarrow>
        snd (a ! ((j - 1) div 2)) \<le> snd (a ! j)"
    and c2: "\<And>j. j < length a \<Longrightarrow> 0 < j \<Longrightarrow> (j - 1) div 2 = i \<Longrightarrow> 0 < i \<Longrightarrow>
        snd (a ! ((i - 1) div 2)) \<le> snd (a ! j)"
    unfolding heap_down_def by blast+
  have least: "snd (a ! s) \<le> snd (a ! j)" if "j < length a" "0 < j" "(j - 1) div 2 = i" for j
  proof -
    from that(2,3) have "j = i * 2 + 1 \<or> j = i * 2 + 1 + 1" using child_iff[of j i] by blast
    with that(1) show ?thesis unfolding s_def by (rule siftDown_pick_least)
  qed
  show ?case
  proof (cases "s = i")
    case True
    then have "siftDown a i = a" by (subst siftDown.simps) (simp add: s_def Let_def)
    moreover have "is_heap a" unfolding is_heap_def
    proof (intro allI impI)
      fix j assume j: "j < length a" "0 < j"
      show "snd (a ! ((j - 1) div 2)) \<le> snd (a ! j)"
      proof (cases "(j - 1) div 2 = i")
        case pj: True
        from least[OF j pj] True pj show ?thesis by simp
      next
        case False
        from c1[OF j False] show ?thesis .
      qed
    qed
    ultimately show ?thesis by simp
  next
    case False
    from siftDown_pick_range[of a i] False have ilt: "i < s" and sl: "s < length a"
      by (simp_all add: s_def)
    have ps: "(s - 1) div 2 = i"
      using siftDown_pick_child[of a i] False child_iff[of s i] unfolding s_def by blast
    have lt: "snd (a ! s) < snd (a ! i)" using False siftDown_pick_less[of a i] by (simp add: s_def)
    define a' where "a' = swap a s i"
    have len: "length a' = length a" by (simp add: a'_def)
    have as: "a' ! s = a ! i" and ai: "a' ! i = a ! s"
      and ak: "\<And>k. k \<noteq> s \<Longrightarrow> k \<noteq> i \<Longrightarrow> a' ! k = a ! k"
      unfolding a'_def using swap_nth[OF sl "1.prems"(1)] by simp_all
    have down: "heap_down a' s" unfolding heap_down_def len
    proof (intro conjI allI impI)
      fix j assume j: "j < length a" "0 < j" "(j - 1) div 2 \<noteq> s"
      show "snd (a' ! ((j - 1) div 2)) \<le> snd (a' ! j)"
      proof (cases "j = s")
        case True
        then show ?thesis using lt as ai ps by simp
      next
        case js: False
        show ?thesis
        proof (cases "j = i")
          case True
          with j(2) have ipos: "0 < i" by simp
          then have "(i - 1) div 2 < i" by simp
          then have "a' ! ((i - 1) div 2) = a ! ((i - 1) div 2)" using ak ilt by simp
          moreover have "snd (a ! ((i - 1) div 2)) \<le> snd (a ! s)"
            using c2[OF sl _ ps ipos] ilt by simp
          ultimately show ?thesis using True ai by simp
        next
          case ji: False
          then have aj: "a' ! j = a ! j" using ak js by simp
          show ?thesis
          proof (cases "(j - 1) div 2 = i")
            case True
            from least[OF j(1,2) True] ai aj True show ?thesis by simp
          next
            case False
            then have "a' ! ((j - 1) div 2) = a ! ((j - 1) div 2)" using ak j(3) by simp
            with c1[OF j(1,2) False] aj show ?thesis by simp
          qed
        qed
      qed
    next
      fix j assume j: "j < length a" "0 < j" "(j - 1) div 2 = s" "0 < s"
      have "s < j" using j(2,3) by auto
      then have "j \<noteq> s" "j \<noteq> i" using ilt by simp_all
      then have "a' ! j = a ! j" using ak by simp
      moreover have "snd (a ! s) \<le> snd (a ! j)" using c1[OF j(1,2)] j(3) ilt by simp
      ultimately show "snd (a' ! ((s - 1) div 2)) \<le> snd (a' ! j)" using ps ai by simp
    qed
    have "is_heap (siftDown a' s)"
      using False down sl len unfolding a'_def s_def by (intro "1.IH") simp_all
    moreover have "siftDown a i = siftDown a' s"
      using False by (subst siftDown.simps) (simp add: s_def a'_def Let_def)
    ultimately show ?thesis by simp
  qed
qed

lemma pq_pop_heap:
  assumes "is_heap a" "pq_pop a = (r, a')"
  shows "is_heap a'"
proof (cases "a = [] \<or> butlast a = []")
  case True
  with assms(2) have "a' = []"
    by (auto simp: pq_pop_def Let_def split: if_splits)
  then show ?thesis by (simp add: is_heap_def)
next
  case False
  define a1 where "a1 = (butlast a)[0 := last a]"
  from False assms(2) have a': "a' = siftDown a1 0" by (auto simp: pq_pop_def Let_def a1_def)
  have len: "length a1 = length a - 1" by (simp add: a1_def)
  have "heap_down a1 0" unfolding heap_down_def
  proof (intro conjI allI impI)
    fix j assume j: "j < length a1" "0 < j" "(j - 1) div 2 \<noteq> 0"
    then have "a1 ! j = a ! j" "a1 ! ((j - 1) div 2) = a ! ((j - 1) div 2)"
      unfolding a1_def by (simp_all add: nth_butlast)
    moreover have "snd (a ! ((j - 1) div 2)) \<le> snd (a ! j)"
      using assms(1) j(1,2) len by (simp add: is_heap_def)
    ultimately show "snd (a1 ! ((j - 1) div 2)) \<le> snd (a1 ! j)" by simp
  next
    fix j :: nat assume "(0 :: nat) < 0"
    then show "snd (a1 ! ((0 - 1) div 2)) \<le> snd (a1 ! j)" by simp
  qed
  moreover have "0 < length a1"
  proof -
    from False have "butlast a \<noteq> []" by simp
    then have "0 < length (butlast a)" by (rule length_greater_0_conv[THEN iffD2])
    then show ?thesis unfolding a1_def by (simp only: length_list_update)
  qed
  ultimately show ?thesis unfolding a' by (intro siftDown_heap)
qed

lemma foldl_min_le_init:
  "foldl (\<lambda>best g. min best (f g)) a xs \<le> (a :: enat)"
proof (induction xs arbitrary: a)
  case Nil
  show ?case by simp
next
  case (Cons x xs)
  have "foldl (\<lambda>best g. min best (f g)) (min a (f x)) xs \<le> min a (f x)" by (rule Cons.IH)
  also have "\<dots> \<le> a" by simp
  finally show ?case by simp
qed

lemma foldl_min_le_mem:
  "x \<in> set xs \<Longrightarrow> foldl (\<lambda>best g. min best (f g)) a xs \<le> (f x :: enat)"
proof (induction xs arbitrary: a)
  case Nil
  then show ?case by simp
next
  case (Cons y ys)
  show ?case
  proof (cases "x = y")
    case True
    have "foldl (\<lambda>best g. min best (f g)) (min a (f y)) ys \<le> min a (f y)"
      by (rule foldl_min_le_init)
    also have "\<dots> \<le> f x" using True by simp
    finally show ?thesis by simp
  next
    case False
    with Cons.prems have "x \<in> set ys" by simp
    from Cons.IH[OF this] show ?thesis by simp
  qed
qed

lemma foldl_min_mono:
  "(\<And>x. x \<in> set xs \<Longrightarrow> f x \<le> f' x + 1) \<Longrightarrow> a \<le> a' + 1 \<Longrightarrow>
     foldl (\<lambda>best g. min best (f g)) a xs \<le> foldl (\<lambda>best g. min best (f' g)) a' xs + (1 :: enat)"
proof (induction xs arbitrary: a a')
  case Nil
  then show ?case by simp
next
  case (Cons x xs)
  have fx: "f x \<le> f' x + 1" by (rule Cons.prems(1)) simp
  have m: "min a (f x) \<le> min a' (f' x) + 1"
  proof (cases "a' \<le> f' x")
    case True
    then have "min a' (f' x) = a'" by simp
    moreover have "min a (f x) \<le> a" by simp
    ultimately show ?thesis using Cons.prems(2) by (simp add: min.coboundedI1)
  next
    case False
    then have "min a' (f' x) = f' x" by simp
    then show ?thesis using fx by (simp add: min.coboundedI2)
  qed
  have "foldl (\<lambda>best g. min best (f g)) (min a (f x)) xs
      \<le> foldl (\<lambda>best g. min best (f' g)) (min a' (f' x)) xs + 1"
    using Cons.prems(1) m by (intro Cons.IH) simp_all
  then show ?case by simp
qed

lemma hToGoal_goal: "fst v \<in> set goals \<Longrightarrow> hToGoal v goals = 0"
proof -
  assume g: "fst v \<in> set goals"
  then have ne: "goals \<noteq> []" by auto
  have "foldl (\<lambda>best g. min best (enat (nat \<bar>fst v - g\<bar>))) \<infinity> goals \<le> enat (nat \<bar>fst v - fst v\<bar>)"
    using g by (rule foldl_min_le_mem)
  then have "foldl (\<lambda>best g. min best (enat (nat \<bar>fst v - g\<bar>))) \<infinity> goals = 0"
    by (simp add: zero_enat_def[symmetric])
  with ne show ?thesis by (simp add: hToGoal_def)
qed

lemma hToGoal_finite: "\<exists>n. hToGoal v goals = enat n"
proof (cases goals)
  case Nil
  then show ?thesis by (simp add: hToGoal_def zero_enat_def)
next
  case (Cons x xs)
  then have "x \<in> set goals" by simp
  then have "foldl (\<lambda>best g. min best (enat (nat \<bar>fst v - g\<bar>))) \<infinity> goals \<le> enat (nat \<bar>fst v - x\<bar>)"
    by (rule foldl_min_le_mem)
  then have "hToGoal v goals \<le> enat (nat \<bar>fst v - x\<bar>)" using Cons by (simp add: hToGoal_def)
  then show ?thesis by (cases "hToGoal v goals") simp_all
qed

lemma hToGoal_step:
  assumes "\<bar>fst v - fst w\<bar> \<le> 1"
  shows "hToGoal v goals \<le> hToGoal w goals + 1"
proof (cases "goals = []")
  case True
  then show ?thesis by (simp add: hToGoal_def)
next
  case False
  have "foldl (\<lambda>best g. min best (enat (nat \<bar>fst v - g\<bar>))) \<infinity> goals
      \<le> foldl (\<lambda>best g. min best (enat (nat \<bar>fst w - g\<bar>))) \<infinity> goals + 1"
  proof (rule foldl_min_mono)
    fix x
    have "nat \<bar>fst v - x\<bar> \<le> nat \<bar>fst w - x\<bar> + 1" using assms by arith
    then show "enat (nat \<bar>fst v - x\<bar>) \<le> enat (nat \<bar>fst w - x\<bar>) + 1"
      by (simp add: one_enat_def)
  next
    show "(\<infinity> :: enat) \<le> \<infinity> + 1" by simp
  qed
  with False show ?thesis by (simp add: hToGoal_def)
qed

lemma neighbors_rows:
  assumes "w \<in> set (neighbors b v)"
  shows "\<bar>fst v - fst w\<bar> \<le> 1" "\<bar>fst w - fst v\<bar> \<le> 1"
  using assms by (auto simp: neighbors_iff)

lemma hToGoal_neighbors:
  assumes "w \<in> set (neighbors b v)"
  shows "hToGoal v goals \<le> hToGoal w goals + 1" "hToGoal w goals \<le> hToGoal v goals + 1"
  using neighbors_rows[OF assms] by (auto intro: hToGoal_step)

lemma g_le_refl: "g_le g g"
  by (simp add: g_le_def)

lemma g_le_trans: "g_le g g1 \<Longrightarrow> g_le g1 g2 \<Longrightarrow> g_le g g2"
  unfolding g_le_def by (meson order_trans)

lemma set_pq_push: "set (pq_push a k pri) = insert (k, pri) (set a)"
  using pq_push_mset[of a k pri] by (metis set_mset_add_mset_insert set_mset_mset)

lemma astar_pre_update:
  assumes pre: "astar_pre b s goals g opn S"
    and u: "(s, u) \<in> edges b ^^ d" and v: "v \<in> set (neighbors b u)"
    and c: "case g v of None \<Rightarrow> True | Some gv \<Rightarrow> d + 1 < gv"
  shows "astar_pre b s goals (g(v \<mapsto> d + 1)) (pq_push opn v (enat (d + 1) + hToGoal v goals)) S"
    and "g_le g (g(v \<mapsto> d + 1))"
proof -
  from pre have hp: "is_heap opn"
    and i1: "\<And>w k. g w = Some k \<Longrightarrow> (s, w) \<in> edges b ^^ k"
    and i2: "\<And>w p. (w, p) \<in> set opn \<Longrightarrow> \<exists>k kv. p = enat k + hToGoal w goals \<and> g w = Some kv \<and> kv \<le> k"
    and i3: "\<And>w k. g w = Some k \<Longrightarrow> w \<notin> S \<Longrightarrow> (w, enat k + hToGoal w goals) \<in> set opn"
    unfolding astar_pre_def by blast+
  have lt: "d + 1 \<le> k" if "g v = Some k" for k using c that by simp
  show "g_le g (g(v \<mapsto> d + 1))" unfolding g_le_def using lt by auto
  show "astar_pre b s goals (g(v \<mapsto> d + 1)) (pq_push opn v (enat (d + 1) + hToGoal v goals)) S"
    unfolding astar_pre_def set_pq_push
  proof (intro conjI allI impI)
    show "is_heap (pq_push opn v (enat (d + 1) + hToGoal v goals))" using hp by (rule pq_push_heap)
  next
    fix w k assume "(g(v \<mapsto> d + 1)) w = Some k"
    then consider "w = v" "k = d + 1" | "w \<noteq> v" "g w = Some k" by (auto split: if_splits)
    then show "(s, w) \<in> edges b ^^ k"
    proof cases
      case 1
      have "(u, v) \<in> edges b" using v by (simp add: edges_def)
      with u have "(s, v) \<in> edges b ^^ Suc d" by auto
      with 1 show ?thesis by simp
    next
      case 2
      then show ?thesis using i1 by simp
    qed
  next
    fix w p assume "(w, p) \<in> insert (v, enat (d + 1) + hToGoal v goals) (set opn)"
    then consider "w = v" "p = enat (d + 1) + hToGoal v goals" | "(w, p) \<in> set opn" by auto
    then show "\<exists>k kv. p = enat k + hToGoal w goals \<and> (g(v \<mapsto> d + 1)) w = Some kv \<and> kv \<le> k"
    proof cases
      case 1
      then show ?thesis by (intro exI[of _ "d + 1"] exI[of _ "d + 1"]) simp
    next
      case 2
      from i2[OF 2] obtain k kv where k: "p = enat k + hToGoal w goals" "g w = Some kv" "kv \<le> k"
        by blast
      show ?thesis
      proof (cases "w = v")
        case True
        with k lt[of kv] have "d + 1 \<le> k" by simp
        with k(1) True show ?thesis by (intro exI[of _ k] exI[of _ "d + 1"]) simp
      next
        case False
        with k show ?thesis by (intro exI[of _ k] exI[of _ kv]) simp
      qed
    qed
  next
    fix w k assume a: "(g(v \<mapsto> d + 1)) w = Some k" "w \<notin> S"
    show "(w, enat k + hToGoal w goals) \<in> insert (v, enat (d + 1) + hToGoal v goals) (set opn)"
    proof (cases "w = v")
      case True
      with a show ?thesis by simp
    next
      case False
      with a have "g w = Some k" by simp
      from i3[OF this a(2)] show ?thesis by simp
    qed
  qed
qed

lemma astar_relax_step_true:
  assumes "case g v of None \<Rightarrow> True | Some gv \<Rightarrow> d + 1 < gv"
  shows "astar_relax (Some d) (v # vs) goals g opn
       = astar_relax (Some d) vs goals (g(v \<mapsto> d + 1)) (pq_push opn v (enat (d + 1) + hToGoal v goals))"
  using assms unfolding astar_relax.simps option.case Let_def by (simp only: if_True)

lemma astar_relax_step_false:
  assumes "\<not> (case g v of None \<Rightarrow> True | Some gv \<Rightarrow> d + 1 < gv)"
  shows "astar_relax (Some d) (v # vs) goals g opn = astar_relax (Some d) vs goals g opn"
  using assms unfolding astar_relax.simps option.case Let_def by (simp only: if_False)

lemma astar_relax_pre:
  assumes "astar_relax (Some d) vs goals g opn = (g2, opn2)"
    and "astar_pre b s goals g opn S"
    and "(s, u) \<in> edges b ^^ d" and "set vs \<subseteq> set (neighbors b u)"
  shows "astar_pre b s goals g2 opn2 S \<and> g_le g g2 \<and>
         (\<forall>w \<in> set vs. \<exists>k. g2 w = Some k \<and> k \<le> d + 1)"
  using assms
proof (induction vs arbitrary: g opn)
  case Nil
  then show ?case by (simp add: g_le_refl)
next
  case (Cons v vs)
  have v: "v \<in> set (neighbors b u)" and vs: "set vs \<subseteq> set (neighbors b u)"
    using Cons.prems(4) by simp_all
  show ?case
  proof (cases "case g v of None \<Rightarrow> True | Some gv \<Rightarrow> d + 1 < gv")
    case True
    let ?g = "g(v \<mapsto> d + 1)" and ?o = "pq_push opn v (enat (d + 1) + hToGoal v goals)"
    have eq: "astar_relax (Some d) vs goals ?g ?o = (g2, opn2)"
      using Cons.prems(1) unfolding astar_relax_step_true[where g = g and v = v and d = d, OF True] .
    have pre: "astar_pre b s goals ?g ?o S" and le: "g_le g ?g"
      using astar_pre_update[OF Cons.prems(2,3) v True] by simp_all
    from Cons.IH[OF eq pre Cons.prems(3) vs]
    have r: "astar_pre b s goals g2 opn2 S" "g_le ?g g2"
      "\<forall>w \<in> set vs. \<exists>k. g2 w = Some k \<and> k \<le> d + 1" by blast+
    have "?g v = Some (d + 1)" by simp
    with r(2) have "\<exists>k. g2 v = Some k \<and> k \<le> d + 1" unfolding g_le_def by blast
    with r g_le_trans[OF le r(2)] show ?thesis by auto
  next
    case False
    have eq: "astar_relax (Some d) vs goals g opn = (g2, opn2)"
      using Cons.prems(1) unfolding astar_relax_step_false[where g = g and v = v and d = d, OF False] .
    from Cons.IH[OF eq Cons.prems(2,3) vs]
    have r: "astar_pre b s goals g2 opn2 S" "g_le g g2"
      "\<forall>w \<in> set vs. \<exists>k. g2 w = Some k \<and> k \<le> d + 1" by blast+
    from False obtain gv where gv: "g v = Some gv" "gv \<le> d + 1" by (cases "g v") auto
    with r(2) have "\<exists>k. g2 v = Some k \<and> k \<le> d + 1" unfolding g_le_def
      by (meson order_trans)
    with r show ?thesis by auto
  qed
qed

lemma astar_frontier:
  assumes inv: "astar_inv b s goals g opn seen"
  shows "connected b s v \<Longrightarrow> cdist b s v = n \<Longrightarrow> v \<notin> set seen \<Longrightarrow>
     \<exists>w p. (w, p) \<in> set opn \<and> p \<le> enat n + hToGoal v goals"
proof (induction n arbitrary: v)
  case 0
  from cdist_walk[OF "0.prems"(1)] "0.prems"(2) have "v = s" by simp
  moreover from inv have "g s = Some 0" by (simp add: astar_inv_def)
  moreover from inv have "\<And>w k. g w = Some k \<Longrightarrow> w \<notin> set seen \<Longrightarrow>
      (w, enat k + hToGoal w goals) \<in> set opn"
    unfolding astar_inv_def astar_pre_def by blast
  ultimately have "(v, enat 0 + hToGoal v goals) \<in> set opn" using "0.prems"(3) by blast
  then show ?case by blast
next
  case (Suc n)
  from cdist_pred[OF Suc.prems(1,2)] obtain x where
    x: "connected b s x" "cdist b s x = n" "v \<in> set (neighbors b x)" by blast
  show ?case
  proof (cases "x \<in> set seen")
    case True
    with inv x(2,3) obtain k where k: "g v = Some k" "k \<le> n + 1"
      unfolding astar_inv_def by blast
    from inv k(1) have "(s, v) \<in> edges b ^^ k" unfolding astar_inv_def astar_pre_def by blast
    from cdist_le[OF this] Suc.prems(2) k(2) have "k = Suc n" by simp
    moreover from inv k(1) Suc.prems(3) have "(v, enat k + hToGoal v goals) \<in> set opn"
      unfolding astar_inv_def astar_pre_def by blast
    ultimately show ?thesis by blast
  next
    case False
    from Suc.IH[OF x(1,2) False] obtain w p where
      w: "(w, p) \<in> set opn" "p \<le> enat n + hToGoal x goals" by blast
    have "hToGoal x goals \<le> hToGoal v goals + 1" using x(3) by (rule hToGoal_neighbors)
    then have "enat n + hToGoal x goals \<le> enat n + (hToGoal v goals + 1)" by (rule add_left_mono)
    also have "\<dots> = enat (Suc n) + hToGoal v goals"
      by (cases "hToGoal v goals") (simp_all add: one_enat_def)
    finally have "p \<le> enat (Suc n) + hToGoal v goals" using w(2) by (rule order_trans[rotated])
    with w(1) show ?thesis by blast
  qed
qed

lemma astar_pop_exact:
  assumes inv: "astar_inv b s goals g opn seen"
    and u: "(u, p) \<in> set opn" and mn: "\<And>w pw. (w, pw) \<in> set opn \<Longrightarrow> p \<le> pw"
    and unseen: "u \<notin> set seen"
  shows "g u = Some (cdist b s u)" "connected b s u" "p = enat (cdist b s u) + hToGoal u goals"
proof -
  from inv u obtain k ku where k: "p = enat k + hToGoal u goals" "g u = Some ku" "ku \<le> k"
    unfolding astar_inv_def astar_pre_def by blast
  from inv k(2) have walk: "(s, u) \<in> edges b ^^ ku" unfolding astar_inv_def astar_pre_def by blast
  then show c: "connected b s u" unfolding connected_def by blast
  from cdist_le[OF walk] have le: "cdist b s u \<le> ku" .
  from astar_frontier[OF inv c refl unseen] obtain w pw where
    w: "(w, pw) \<in> set opn" "pw \<le> enat (cdist b s u) + hToGoal u goals" by blast
  from mn[OF w(1)] w(2) have "p \<le> enat (cdist b s u) + hToGoal u goals" by (rule order_trans)
  moreover obtain h where h: "hToGoal u goals = enat h" using hToGoal_finite by blast
  ultimately have "k \<le> cdist b s u" using k(1) by simp
  with le k(3) have "ku = cdist b s u" "k = cdist b s u" by simp_all
  with k show "g u = Some (cdist b s u)" "p = enat (cdist b s u) + hToGoal u goals" by simp_all
qed

lemma astar_pop_goal:
  assumes inv: "astar_inv b s goals g opn seen"
    and u: "(u, p) \<in> set opn" and mn: "\<And>w pw. (w, pw) \<in> set opn \<Longrightarrow> p \<le> pw"
    and unseen: "u \<notin> set seen" and goal: "fst u \<in> set goals"
  shows "goalDist b s goals = Some (cdist b s u)"
proof (rule goalDist_SomeI[where t = u])
  from astar_pop_exact[OF inv u mn unseen]
  have c: "connected b s u" and p: "p = enat (cdist b s u) + hToGoal u goals" by simp_all
  show "(s, u) \<in> edges b ^^ cdist b s u" using c by (rule cdist_walk)
  show "fst u \<in> set goals" by (rule goal)
  fix m t' assume t: "(s, t') \<in> edges b ^^ m" "fst t' \<in> set goals"
  then have ct: "connected b s t'" unfolding connected_def by blast
  have "t' \<notin> set seen" using inv t(2) unfolding astar_inv_def by blast
  from astar_frontier[OF inv ct refl this] obtain w pw where
    w: "(w, pw) \<in> set opn" "pw \<le> enat (cdist b s t') + hToGoal t' goals" by blast
  from mn[OF w(1)] w(2) have "p \<le> enat (cdist b s t') + hToGoal t' goals" by (rule order_trans)
  then have "cdist b s u \<le> cdist b s t'"
    unfolding p hToGoal_goal[OF goal] hToGoal_goal[OF t(2)] by simp
  also have "\<dots> \<le> m" using t(1) by (rule cdist_le)
  finally show "cdist b s u \<le> m" .
qed

lemma astar_empty:
  assumes inv: "astar_inv b s goals g [] seen"
  shows "goalDist b s goals = None"
proof (rule goalDist_NoneI)
  fix m t assume "(s, t) \<in> edges b ^^ m"
  then have ct: "connected b s t" unfolding connected_def by blast
  have "t \<in> set seen"
  proof (rule ccontr)
    assume "t \<notin> set seen"
    from astar_frontier[OF inv ct refl this] show False by simp
  qed
  with inv show "fst t \<notin> set goals" unfolding astar_inv_def by blast
qed

lemma astar_inv_init:
  "astar_inv b s goals [s \<mapsto> 0] (pq_push [] s (hToGoal s goals)) []"
proof -
  have hp: "is_heap (pq_push [] s (hToGoal s goals))" by (rule pq_push_heap) (simp add: is_heap_def)
  have e0: "enat 0 + hToGoal s goals = hToGoal s goals" by (simp add: zero_enat_def[symmetric])
  have st: "set (pq_push [] s (hToGoal s goals)) = {(s, hToGoal s goals)}" by (simp add: set_pq_push)
  have "astar_pre b s goals [s \<mapsto> 0] (pq_push [] s (hToGoal s goals)) (set [])"
    unfolding astar_pre_def st
  proof (intro conjI allI impI)
    show "is_heap (pq_push [] s (hToGoal s goals))" by (rule hp)
  next
    fix v k assume "[s \<mapsto> 0 :: nat] v = Some k"
    then have "v = s" "k = 0" by (auto split: if_splits)
    then show "(s, v) \<in> edges b ^^ k" by simp
  next
    fix v p assume "(v, p) \<in> {(s, hToGoal s goals)}"
    then have "v = s" "p = enat 0 + hToGoal s goals" using e0 by simp_all
    then show "\<exists>k kv. p = enat k + hToGoal v goals \<and> [s \<mapsto> 0 :: nat] v = Some kv \<and> kv \<le> k"
      by (intro exI[of _ 0]) simp
  next
    fix v k assume "[s \<mapsto> 0 :: nat] v = Some k"
    then have "v = s" "k = 0" by (auto split: if_splits)
    then show "(v, enat k + hToGoal v goals) \<in> {(s, hToGoal s goals)}" using e0 by simp
  qed
  then show ?thesis unfolding astar_inv_def by simp
qed

lemma astar_inv_skip:
  assumes inv: "astar_inv b s goals g opn seen"
    and pop: "pq_pop opn = (r, opn1)" and m: "mset opn = add_mset (u, p) (mset opn1)"
    and seen: "u \<in> set seen"
  shows "astar_inv b s goals g opn1 seen"
proof -
  have so: "set opn = insert (u, p) (set opn1)"
    using m by (metis set_mset_add_mset_insert set_mset_mset)
  from inv have i0: "is_heap opn"
    and i1: "\<And>w k. g w = Some k \<Longrightarrow> (s, w) \<in> edges b ^^ k"
    and i2: "\<And>w q. (w, q) \<in> set opn \<Longrightarrow> \<exists>k kv. q = enat k + hToGoal w goals \<and> g w = Some kv \<and> kv \<le> k"
    and i3: "\<And>w k. g w = Some k \<Longrightarrow> w \<notin> set seen \<Longrightarrow> (w, enat k + hToGoal w goals) \<in> set opn"
    and rest: "g s = Some 0 \<and> (\<forall>v \<in> set seen. fst v \<notin> set goals \<and> g v = Some (cdist b s v) \<and>
         (\<forall>w \<in> set (neighbors b v). \<exists>k. g w = Some k \<and> k \<le> cdist b s v + 1))"
    unfolding astar_inv_def astar_pre_def by blast+
  have "astar_pre b s goals g opn1 (set seen)" unfolding astar_pre_def
  proof (intro conjI allI impI)
    show "is_heap opn1" using i0 pop by (rule pq_pop_heap)
  next
    fix w k assume "g w = Some k" then show "(s, w) \<in> edges b ^^ k" by (rule i1)
  next
    fix w q assume "(w, q) \<in> set opn1"
    then have "(w, q) \<in> set opn" using so by simp
    then show "\<exists>k kv. q = enat k + hToGoal w goals \<and> g w = Some kv \<and> kv \<le> k" by (rule i2)
  next
    fix w k assume a: "g w = Some k" "w \<notin> set seen"
    then have "(w, enat k + hToGoal w goals) \<in> set opn" by (rule i3)
    moreover have "w \<noteq> u" using a(2) seen by blast
    ultimately show "(w, enat k + hToGoal w goals) \<in> set opn1" using so by auto
  qed
  then show ?thesis unfolding astar_inv_def using rest by (rule conjI)
qed

lemma astar_inv_expand:
  assumes inv: "astar_inv b s goals g opn seen"
    and pop: "pq_pop opn = (r, opn1)" and m: "mset opn = add_mset (u, p) (mset opn1)"
    and mn: "\<And>w pw. (w, pw) \<in> set opn \<Longrightarrow> p \<le> pw"
    and unseen: "u \<notin> set seen" and nogoal: "fst u \<notin> set goals"
    and rel: "astar_relax (g u) (neighbors b u) goals g opn1 = (g2, opn2)"
  shows "astar_inv b s goals g2 opn2 (set_add u seen)"
proof -
  have so: "set opn = insert (u, p) (set opn1)"
    using m by (metis set_mset_add_mset_insert set_mset_mset)
  then have up: "(u, p) \<in> set opn" by simp
  from astar_pop_exact[OF inv up mn unseen]
  have gu: "g u = Some (cdist b s u)" and c: "connected b s u" by simp_all
  from inv have "is_heap opn" unfolding astar_inv_def astar_pre_def by blast
  then have hp: "is_heap opn1" using pop by (rule pq_pop_heap)
  from inv have i1: "\<And>w k. g w = Some k \<Longrightarrow> (s, w) \<in> edges b ^^ k"
    and i2: "\<And>w q. (w, q) \<in> set opn \<Longrightarrow> \<exists>k kv. q = enat k + hToGoal w goals \<and> g w = Some kv \<and> kv \<le> k"
    and i3: "\<And>w k. g w = Some k \<Longrightarrow> w \<notin> set seen \<Longrightarrow> (w, enat k + hToGoal w goals) \<in> set opn"
    and i5: "g s = Some 0"
    and i4: "\<And>v. v \<in> set seen \<Longrightarrow> fst v \<notin> set goals \<and> g v = Some (cdist b s v) \<and>
         (\<forall>w \<in> set (neighbors b v). \<exists>k. g w = Some k \<and> k \<le> cdist b s v + 1)"
    unfolding astar_inv_def astar_pre_def by blast+
  let ?S = "insert u (set seen)"
  have pre1: "astar_pre b s goals g opn1 ?S" unfolding astar_pre_def
  proof (intro conjI allI impI)
    show "is_heap opn1" by (rule hp)
  next
    fix w k assume "g w = Some k" then show "(s, w) \<in> edges b ^^ k" by (rule i1)
  next
    fix w q assume "(w, q) \<in> set opn1"
    then have "(w, q) \<in> set opn" using so by simp
    then show "\<exists>k kv. q = enat k + hToGoal w goals \<and> g w = Some kv \<and> kv \<le> k" by (rule i2)
  next
    fix w k assume a: "g w = Some k" "w \<notin> ?S"
    then have "(w, enat k + hToGoal w goals) \<in> set opn" using i3 by simp
    with a(2) show "(w, enat k + hToGoal w goals) \<in> set opn1" using so by auto
  qed
  have rel': "astar_relax (Some (cdist b s u)) (neighbors b u) goals g opn1 = (g2, opn2)"
    using rel gu by simp
  from astar_relax_pre[OF rel' pre1 cdist_walk[OF c] subset_refl]
  have pre2: "astar_pre b s goals g2 opn2 ?S" and le: "g_le g g2"
    and nb: "\<forall>w \<in> set (neighbors b u). \<exists>k. g2 w = Some k \<and> k \<le> cdist b s u + 1" by blast+
  from pre2 have j1: "\<And>w k. g2 w = Some k \<Longrightarrow> (s, w) \<in> edges b ^^ k"
    unfolding astar_pre_def by blast
  have exact: "g2 v = Some (cdist b s v)" if "g v = Some (cdist b s v)" for v
  proof -
    from le that obtain k' where k': "g2 v = Some k'" "k' \<le> cdist b s v" unfolding g_le_def by blast
    from cdist_le[OF j1[OF k'(1)]] k' show ?thesis by simp
  qed
  have set1: "set (set_add u seen) = ?S" by (auto simp: set_add_def)
  show ?thesis unfolding astar_inv_def set1
  proof (intro conjI ballI)
    show "astar_pre b s goals g2 opn2 ?S" by (rule pre2)
    show "g2 s = Some 0" using exact[of s] i5 by (simp add: cdist_start)
  next
    fix v assume v: "v \<in> ?S"
    show "fst v \<notin> set goals" using v nogoal i4 by blast
    show "g2 v = Some (cdist b s v)" using v gu i4 exact by blast
  next
    fix v w assume v: "v \<in> ?S" and w: "w \<in> set (neighbors b v)"
    show "\<exists>k. g2 w = Some k \<and> k \<le> cdist b s v + 1"
    proof (cases "v = u")
      case True
      with nb w show ?thesis by blast
    next
      case False
      with v i4 w obtain k where "g w = Some k" "k \<le> cdist b s v + 1" by blast
      with le show ?thesis unfolding g_le_def by (meson order_trans)
    qed
  qed
qed

lemma astar_loop_correct:
  "astar_inv b s goals g opn seen \<Longrightarrow> astar_loop b goals g opn seen = goalDist b s goals"
proof (induction b goals g opn seen rule: astar_loop.induct)
  case (1 b goals g opn seen)
  note inv = "1.prems"
  show ?case
  proof (cases "opn = []")
    case True
    then have "astar_loop b goals g opn seen = None"
      by (subst astar_loop.simps) (simp add: pq_empty_def)
    moreover have "goalDist b s goals = None" using inv unfolding True by (rule astar_empty)
    ultimately show ?thesis by simp
  next
    case False
    then have ne: "\<not> pq_empty opn" by (simp add: pq_empty_def)
    obtain r opn1 where pop: "pq_pop opn = (r, opn1)" by (cases "pq_pop opn")
    from pq_pop_mset[OF False pop] obtain u p where
      r: "r = Some u" and top: "(u, p) = opn ! 0"
      and m: "mset opn = add_mset (u, p) (mset opn1)" by blast
    have so: "set opn = insert (u, p) (set opn1)"
      using m by (metis set_mset_add_mset_insert set_mset_mset)
    then have up: "(u, p) \<in> set opn" by simp
    from inv have hp: "is_heap opn" unfolding astar_inv_def astar_pre_def by blast
    have mn: "p \<le> pw" if "(w, pw) \<in> set opn" for w pw
    proof -
      from that obtain i where i: "i < length opn" "opn ! i = (w, pw)"
        unfolding in_set_conv_nth by blast
      from is_heap_min[OF hp i(1)] show ?thesis unfolding i(2) top[symmetric] by simp
    qed
    have pop': "pq_pop opn = (Some u, opn1)" using pop r by simp
    show ?thesis
    proof (cases "u \<in> set seen")
      case True
      have "astar_loop b goals g opn seen = astar_loop b goals g opn1 seen"
        using ne pop' True by (subst astar_loop.simps) simp
      also have "\<dots> = goalDist b s goals"
        using astar_inv_skip[OF inv pop m True] by (rule "1.IH"(1)[OF ne pop'[symmetric] refl True])
      finally show ?thesis .
    next
      case unseen: False
      show ?thesis
      proof (cases "fst u \<in> set goals")
        case True
        have "astar_loop b goals g opn seen = g u"
          using ne pop' unseen True by (subst astar_loop.simps) (simp add: Let_def)
        also have "\<dots> = Some (cdist b s u)" using inv up mn unseen by (rule astar_pop_exact)
        also have "\<dots> = goalDist b s goals"
          using astar_pop_goal[OF inv up mn unseen True] by simp
        finally show ?thesis .
      next
        case nogoal: False
        obtain g2 opn2 where rel: "astar_relax (g u) (neighbors b u) goals g opn1 = (g2, opn2)"
          by (cases "astar_relax (g u) (neighbors b u) goals g opn1")
        have "astar_loop b goals g opn seen = astar_loop b goals g2 opn2 (set_add u seen)"
          using ne pop' unseen nogoal rel by (subst astar_loop.simps) (simp add: Let_def)
        also have "\<dots> = goalDist b s goals"
          using astar_inv_expand[OF inv pop m mn unseen nogoal rel]
          by (rule "1.IH"(2)[OF ne pop'[symmetric] refl unseen refl nogoal rel[symmetric]])
        finally show ?thesis .
      qed
    qed
  qed
qed

lemma astarDistToGoal_correct: "astarDistToGoal b start goals = goalDist b start goals"
  unfolding astarDistToGoal_def by (rule astar_loop_correct) (rule astar_inv_init)

section \<open>Claims\<close>

text \<open>
  C8. \<open>wallLegal\<close> is false exactly when the anchor is outside \<open>[0, N-2] x [0, N-2]\<close>, or a
  wall of the same orientation has the same anchor, or a wall of the other orientation has
  the same anchor, or a wall of the same orientation is anchored one column to the left or
  right (for \<open>H\<close>) or one row above or below (for \<open>V\<close>); it is a function of the board and
  the wall alone and returns no board.
\<close>

theorem wallLegal_characterisation:
  "wallLegal b (r, c, ori) =
     (\<not> (r < 0 \<or> N b - 2 < r \<or> c < 0 \<or> N b - 2 < c
        \<or> (ori = H \<and> (r, c) \<in> set (hWalls b)) \<or> (ori = V \<and> (r, c) \<in> set (vWalls b))
        \<or> (ori = H \<and> (r, c) \<in> set (vWalls b)) \<or> (ori = V \<and> (r, c) \<in> set (hWalls b))
        \<or> (ori = H \<and> ((r, c - 1) \<in> set (hWalls b) \<or> (r, c + 1) \<in> set (hWalls b)))
        \<or> (ori = V \<and> ((r - 1, c) \<in> set (vWalls b) \<or> (r + 1, c) \<in> set (vWalls b)))))"
  by (cases ori) (auto simp: wallLegal_def hHalfOverlap_def vHalfOverlap_def)

theorem wallLegal_characterisation_witness:
  "wallLegal ((newBoard 9)\<lparr>hWalls := [(3, 4)]\<rparr>) (3, 2, H) \<and>
   \<not> wallLegal ((newBoard 9)\<lparr>hWalls := [(3, 4)]\<rparr>) (3, 3, H) \<and>
   \<not> wallLegal ((newBoard 9)\<lparr>hWalls := [(3, 4)]\<rparr>) (3, 4, V) \<and>
   \<not> wallLegal ((newBoard 9)\<lparr>hWalls := [(3, 4)]\<rparr>) (8, 0, V)"
  using wallLegal_characterisation[of "(newBoard 9)\<lparr>hWalls := [(3, 4)]\<rparr>" 3 2 H]
    wallLegal_characterisation[of "(newBoard 9)\<lparr>hWalls := [(3, 4)]\<rparr>" 3 3 H]
    wallLegal_characterisation[of "(newBoard 9)\<lparr>hWalls := [(3, 4)]\<rparr>" 3 4 V]
    wallLegal_characterisation[of "(newBoard 9)\<lparr>hWalls := [(3, 4)]\<rparr>" 8 0 V]
  by (simp add: newBoard_def)

text \<open>
  C10. When the mover's pawn stands on the board, every cell \<open>legalPawnMoves\<close> returns
  lies on the board and differs from the cell of the opponent's pawn.
\<close>

theorem legalPawnMoves_on_board:
  assumes "inBounds s (pawns s ! toMove s)" and "gsN s = N (board s)"
    and "p \<in> set (legalPawnMoves s)"
  shows "inBounds s p \<and> p \<noteq> pawns s ! (1 - toMove s)"
proof -
  define myp where "myp = pawns s ! toMove s"
  define opp where "opp = pawns s ! (1 - toMove s)"
  from assms(3) obtain q where q: "q \<in> set (neighbors (board s) myp)"
    and p: "p \<in> set (if q = opp then jumpMoves s myp opp else [q])"
    unfolding legalPawnMoves_iff myp_def opp_def by blast
  have qb: "inBounds s q" using q assms(1,2)
    by (auto simp: neighbors_iff inBounds_def myp_def)
  show ?thesis
  proof (cases "q = opp")
    case False
    with p qb show ?thesis by (simp add: opp_def)
  next
    case True
    have ne: "opp \<noteq> myp" using q True neighbors_ne by blast
    from p True have "p \<in> set (jumpMoves s myp opp)" by simp
    then have "inBounds s p \<and> p \<noteq> opp" using ne
      by (cases myp; cases opp) (auto simp: jumpMoves_def Let_def split: if_splits)
    then show ?thesis by (simp add: opp_def)
  qed
qed

theorem legalPawnMoves_on_board_witness:
  "inBounds (newGameState 9) (0, 3) \<and> (0, 3) \<noteq> pawns (newGameState 9) ! (1 - toMove (newGameState 9))"
proof -
  have 1: "inBounds (newGameState 9) (pawns (newGameState 9) ! toMove (newGameState 9))"
    by (simp add: newGameState_def inBounds_def)
  have 2: "gsN (newGameState 9) = N (board (newGameState 9))"
    by (simp add: newGameState_def newBoard_def)
  have 3: "(0, 3) \<in> set (legalPawnMoves (newGameState 9))"
    by code_simp
  from legalPawnMoves_on_board[OF 1 2 3] show ?thesis .
qed

text \<open>
  C4. When \<open>apply(mv)\<close> with \<open>recordHistory = true\<close> succeeds, \<open>undo\<close> gives back the state
  before the call, in every field, the history log included.
\<close>

theorem apply_undo:
  assumes "applyMove s mv True = Return u s'"
  shows "undo s' = s"
proof -
  from applyMove_frame[OF assms]
  have f: "gsN s' = gsN s" "N (board s') = N (board s)" "history s' = history s @ [snapshot s]"
    by simp_all
  have "undo s' = restore (s'\<lparr>history := history s\<rparr>) (snapshot s)"
    using f(3) by (simp add: undo_def)
  also have "\<dots> = s" using f(1,2) by (intro restore_snapshot) simp_all
  finally show ?thesis .
qed

theorem apply_undo_witness:
  "undo ((newGameState 3)\<lparr>board := (newBoard 3)\<lparr>hWalls := [(0, 0)], hOwners := [((0, 0), 0)]\<rparr>,
       wallsLeft := [9, 10], toMove := 1, history := [snapshot (newGameState 3)]\<rparr>) = newGameState 3"
proof -
  have "applyMove (newGameState 3) (WALL (0, 0, H)) True =
    Return () ((newGameState 3)\<lparr>board := (newBoard 3)\<lparr>hWalls := [(0, 0)], hOwners := [((0, 0), 0)]\<rparr>,
       wallsLeft := [9, 10], toMove := 1, history := [snapshot (newGameState 3)]\<rparr>)"
    by code_simp
  then show ?thesis by (rule apply_undo)
qed

text \<open>
  C9. When \<open>apply(mv)\<close> with \<open>recordHistory = true\<close> throws, on a board whose owner
  entries all belong to placed walls, the state it leaves is the state before the call
  with one more snapshot in the history log, the snapshot of that state; \<open>undo\<close> then
  gives the state before the call back.
\<close>

theorem apply_throw_history:
  assumes "owners_ok (board s)" and "applyMove s mv True = Throw e s'"
  shows "s' = s\<lparr>history := history s @ [snapshot s]\<rparr> \<and> undo s' = s"
proof -
  have s': "s' = s\<lparr>history := history s @ [snapshot s]\<rparr>"
  proof (cases mv)
    case (PAWN dest)
    with assms(2) show ?thesis by (auto simp: applyMove_def Let_def split: if_splits)
  next
    case (WALL w)
    show ?thesis
    proof (cases "placeWall (board s) w (Some (toMove s))")
      case (Inl err)
      with assms(2) WALL show ?thesis
        by (auto simp: applyMove_def Let_def split: if_splits)
    next
      case (Inr b1)
      from place_remove[OF assms(1) Inr] have "removeWall b1 w = board s" .
      with assms(2) WALL Inr show ?thesis
        by (auto simp: applyMove_def Let_def split: if_splits)
    qed
  qed
  have "undo (s\<lparr>history := history s @ [snapshot s]\<rparr>) = restore s (snapshot s)"
    by (simp add: undo_def)
  also have "\<dots> = s" by (intro restore_snapshot) simp_all
  finally show ?thesis using s' by simp
qed

theorem apply_throw_history_witness:
  "(newGameState 3)\<lparr>pawns := [(0, 1), (2, 1)], history := [snapshot (newGameState 3)]\<rparr>
      = (newGameState 3)\<lparr>history := history (newGameState 3) @ [snapshot (newGameState 3)]\<rparr> \<and>
   undo ((newGameState 3)\<lparr>pawns := [(0, 1), (2, 1)], history := [snapshot (newGameState 3)]\<rparr>)
      = newGameState 3"
proof -
  have 1: "owners_ok (board (newGameState 3))"
    by (simp add: owners_ok_def newGameState_def newBoard_def)
  have 2: "applyMove (newGameState 3) (PAWN (2, 2)) True =
      Throw IllegalMove ((newGameState 3)\<lparr>pawns := [(0, 1), (2, 1)], history := [snapshot (newGameState 3)]\<rparr>)"
    by code_simp
  from apply_throw_history[OF 1 2] show ?thesis .
qed

text \<open>
  C3. For a wall move, on a board whose owner entries all belong to placed walls:
  \<open>apply\<close> throws \<open>NoWallsLeft\<close> when the mover has no wall left; otherwise
  \<open>IllegalPlacement\<close> when \<open>wallLegal\<close> is false; otherwise, when the board with the wall
  leaves a player without a path, \<open>BlocksAllPaths\<close>, and the state it leaves differs from
  the one before the call at most by the recorded snapshot; otherwise it returns, the
  wall is on the board with the mover as owner, the mover has one wall less and the other
  player is to move.
\<close>

theorem apply_wall_cases:
  assumes "owners_ok (board s)"
  shows "applyMove s (WALL w) rec =
     (let s1 = (if rec then s\<lparr>history := history s @ [snapshot s]\<rparr> else s); me = toMove s in
      if wallsLeft s ! me \<le> 0 then Throw NoWallsLeft s1
      else if \<not> wallLegal (board s) w then Throw IllegalPlacement s1
      else case placeWall (board s) w (Some me) of
        Inl e \<Rightarrow> Throw e s1
      | Inr b1 \<Rightarrow>
          if \<not> bothPaths b1 s then Throw BlocksAllPaths s1
          else Return () (s1\<lparr>board := b1,
                 wallsLeft := (wallsLeft s)[me := wallsLeft s ! me - 1],
                 toMove := 1 - me\<rparr>))
   \<and> (\<forall>b1. placeWall (board s) w (Some (toMove s)) = Inr b1 \<longrightarrow>
          hasWall b1 w \<and> ownerOf b1 w = Some (toMove s))
   \<and> (wallLegal (board s) w \<longrightarrow> (\<exists>b1. placeWall (board s) w (Some (toMove s)) = Inr b1))"
proof (intro conjI allI impI)
  show "applyMove s (WALL w) rec =
     (let s1 = (if rec then s\<lparr>history := history s @ [snapshot s]\<rparr> else s); me = toMove s in
      if wallsLeft s ! me \<le> 0 then Throw NoWallsLeft s1
      else if \<not> wallLegal (board s) w then Throw IllegalPlacement s1
      else case placeWall (board s) w (Some me) of
        Inl e \<Rightarrow> Throw e s1
      | Inr b1 \<Rightarrow>
          if \<not> bothPaths b1 s then Throw BlocksAllPaths s1
          else Return () (s1\<lparr>board := b1,
                 wallsLeft := (wallsLeft s)[me := wallsLeft s ! me - 1],
                 toMove := 1 - me\<rparr>))"
  proof (cases "placeWall (board s) w (Some (toMove s))")
    case (Inl e)
    then show ?thesis by (simp add: applyMove_def Let_def bothPaths_def goalRows_def)
  next
    case (Inr b1)
    from place_remove[OF assms Inr] have "removeWall b1 w = board s" .
    with Inr show ?thesis by (simp add: applyMove_def Let_def bothPaths_def goalRows_def)
  qed
next
  fix b1 assume "placeWall (board s) w (Some (toMove s)) = Inr b1"
  from placeWall_records[OF this] show "hasWall b1 w" "ownerOf b1 w = Some (toMove s)" by simp_all
next
  assume "wallLegal (board s) w"
  then show "\<exists>b1. placeWall (board s) w (Some (toMove s)) = Inr b1" by (rule placeWall_legal)
qed

theorem apply_wall_cases_witness:
  "applyMove cornered (WALL (0, 1, V)) True
      = Throw BlocksAllPaths (cornered\<lparr>history := [snapshot cornered]\<rparr>) \<and>
   applyMove cornered (WALL (1, 0, H)) False
      = Return () (cornered\<lparr>board := (newBoard 3)\<lparr>hWalls := [(0, 0), (1, 0)],
                                  hOwners := [((0, 0), 1), ((1, 0), 0)]\<rparr>,
                     wallsLeft := [9, 9], toMove := 1\<rparr>) \<and>
   applyMove cornered (WALL (0, 1, H)) False = Throw IllegalPlacement cornered \<and>
   applyMove (cornered\<lparr>wallsLeft := [0, 9]\<rparr>) (WALL (1, 0, H)) False
      = Throw NoWallsLeft (cornered\<lparr>wallsLeft := [0, 9]\<rparr>)"
proof -
  have ok: "owners_ok (board cornered)" "owners_ok (board (cornered\<lparr>wallsLeft := [0, 9]\<rparr>))"
    by (simp_all add: cornered_def owners_ok_def newGameState_def newBoard_def)
  have 1: "applyMove cornered (WALL (0, 1, V)) True
      = Throw BlocksAllPaths (cornered\<lparr>history := [snapshot cornered]\<rparr>)"
    by (subst conjunct1[OF apply_wall_cases[OF ok(1)]]) code_simp
  have 2: "applyMove cornered (WALL (1, 0, H)) False
      = Return () (cornered\<lparr>board := (newBoard 3)\<lparr>hWalls := [(0, 0), (1, 0)],
                                  hOwners := [((0, 0), 1), ((1, 0), 0)]\<rparr>,
                     wallsLeft := [9, 9], toMove := 1\<rparr>)"
    by (subst conjunct1[OF apply_wall_cases[OF ok(1)]]) code_simp
  have 3: "applyMove cornered (WALL (0, 1, H)) False = Throw IllegalPlacement cornered"
    by (subst conjunct1[OF apply_wall_cases[OF ok(1)]]) code_simp
  have 4: "applyMove (cornered\<lparr>wallsLeft := [0, 9]\<rparr>) (WALL (1, 0, H)) False
      = Throw NoWallsLeft (cornered\<lparr>wallsLeft := [0, 9]\<rparr>)"
    by (subst conjunct1[OF apply_wall_cases[OF ok(2)]]) code_simp
  from 1 2 3 4 show ?thesis by (intro conjI)
qed

text \<open>
  C6. When a neighbour of the mover's pawn holds the opponent's pawn and the straight jump
  is off the board or wall-blocked, the jump destinations offered instead are, the mover's
  own cell aside, exactly those of the two cells beside the opponent's cell, perpendicular
  to the jump direction, that are on the board and not wall-blocked from the opponent's
  cell; and each of these two cells is offered by \<open>legalPawnMoves\<close> if and only if it is
  on the board and not wall-blocked from the opponent's cell.
\<close>

theorem diagonal_jumps:
  assumes "myp = pawns s ! toMove s" and "opp = pawns s ! (1 - toMove s)"
    and nb: "opp \<in> set (neighbors (board s) myp)"
    and nojump: "\<not> (inBounds s (2 * fst opp - fst myp, 2 * snd opp - snd myp) \<and>
                  \<not> blockedEdge (board s) opp (2 * fst opp - fst myp, 2 * snd opp - snd myp))"
    and x: "x = (fst opp + (snd opp - snd myp), snd opp + (fst opp - fst myp)) \<or>
            x = (fst opp - (snd opp - snd myp), snd opp - (fst opp - fst myp))"
  shows "set (jumpMoves s myp opp) - {myp} =
           {y. (y = (fst opp + (snd opp - snd myp), snd opp + (fst opp - fst myp)) \<or>
                y = (fst opp - (snd opp - snd myp), snd opp - (fst opp - fst myp))) \<and>
               inBounds s y \<and> \<not> blockedEdge (board s) opp y} \<and>
         (x \<in> set (legalPawnMoves s) \<longleftrightarrow> inBounds s x \<and> \<not> blockedEdge (board s) opp x)"
proof (rule conjI)
  show "set (jumpMoves s myp opp) - {myp} =
           {y. (y = (fst opp + (snd opp - snd myp), snd opp + (fst opp - fst myp)) \<or>
                y = (fst opp - (snd opp - snd myp), snd opp - (fst opp - fst myp))) \<and>
               inBounds s y \<and> \<not> blockedEdge (board s) opp y}"
    using nb nojump by (rule jumpMoves_exact)
  have notnb: "x \<notin> set (neighbors (board s) myp)"
  proof
    assume "x \<in> set (neighbors (board s) myp)"
    then have "(fst x = fst myp \<or> snd x = snd myp)" by (auto simp: neighbors_iff)
    with neighbor_unit[OF nb] show False using x by (elim disjE conjE) simp_all
  qed
  have "x \<in> set (legalPawnMoves s) \<longleftrightarrow> x \<in> set (jumpMoves s myp opp)"
  proof
    assume "x \<in> set (legalPawnMoves s)"
    then obtain q where "q \<in> set (neighbors (board s) myp)"
      "x \<in> set (if q = opp then jumpMoves s myp opp else [q])"
      unfolding legalPawnMoves_iff assms(1,2) by blast
    with notnb show "x \<in> set (jumpMoves s myp opp)" by (cases "q = opp") auto
  next
    assume "x \<in> set (jumpMoves s myp opp)"
    with nb show "x \<in> set (legalPawnMoves s)"
      unfolding legalPawnMoves_iff assms(1,2) by (intro bexI[of _ "pawns s ! (1 - toMove s)"]) simp_all
  qed
  with jumpMoves_sides[OF nb nojump x]
  show "x \<in> set (legalPawnMoves s) \<longleftrightarrow> inBounds s x \<and> \<not> blockedEdge (board s) opp x" by simp
qed

theorem diagonal_jumps_witness:
  "set (jumpMoves atEdge (7, 4) (8, 4)) - {(7, 4)} =
     {y. (y = (fst (8 :: int, 4 :: int) + (snd (8 :: int, 4 :: int) - snd (7 :: int, 4 :: int)),
               snd (8 :: int, 4 :: int) + (fst (8 :: int, 4 :: int) - fst (7 :: int, 4 :: int))) \<or>
          y = (fst (8 :: int, 4 :: int) - (snd (8 :: int, 4 :: int) - snd (7 :: int, 4 :: int)),
               snd (8 :: int, 4 :: int) - (fst (8 :: int, 4 :: int) - fst (7 :: int, 4 :: int)))) \<and>
         inBounds atEdge y \<and> \<not> blockedEdge (board atEdge) (8, 4) y} \<and>
   ((8, 3) \<in> set (legalPawnMoves atEdge) \<longleftrightarrow>
      inBounds atEdge (8, 3) \<and> \<not> blockedEdge (board atEdge) (8, 4) (8, 3))"
proof -
  have 1: "(7, 4) = pawns atEdge ! toMove atEdge" "(8, 4) = pawns atEdge ! (1 - toMove atEdge)"
    by (simp_all add: atEdge_def newGameState_def)
  have 2: "(8, 4) \<in> set (neighbors (board atEdge) (7, 4))" by code_simp
  have 3: "\<not> (inBounds atEdge (2 * fst (8, 4) - fst (7, 4), 2 * snd (8, 4) - snd (7, 4)) \<and>
       \<not> blockedEdge (board atEdge) (8, 4) (2 * fst (8, 4) - fst (7, 4), 2 * snd (8, 4) - snd (7, 4)))"
    by (simp add: inBounds_def atEdge_def newGameState_def)
  have 4: "(8, 3) = (fst (8 :: int, 4 :: int) + (snd (8 :: int, 4 :: int) - snd (7 :: int, 4 :: int)),
                    snd (8 :: int, 4 :: int) + (fst (8 :: int, 4 :: int) - fst (7 :: int, 4 :: int))) \<or>
           (8, 3) = (fst (8 :: int, 4 :: int) - (snd (8 :: int, 4 :: int) - snd (7 :: int, 4 :: int)),
                    snd (8 :: int, 4 :: int) - (fst (8 :: int, 4 :: int) - fst (7 :: int, 4 :: int)))"
    by simp
  from diagonal_jumps[OF 1 2 3 4] show ?thesis .
qed

text \<open>
  The claim as written fails at the edge of the board: the cell \<open>(8, 3)\<close> beside the
  opponent is offered although the path straight behind the opponent is not wall-blocked;
  and the offered jump destinations are three cells, the mover's own cell \<open>(7, 4)\<close>
  among them, not the two perpendicular ones.
\<close>

theorem diagonal_jumps_counterexample:
  "(8, 3) \<in> set (legalPawnMoves atEdge) \<and>
   \<not> (inBounds atEdge (8, 3) \<and> \<not> blockedEdge (board atEdge) (8, 4) (8, 3) \<and>
      blockedEdge (board atEdge) (8, 4) (9, 4)) \<and>
   jumpMoves atEdge (7, 4) (8, 4) = [(7, 4), (8, 3), (8, 5)]"
  by code_simp



text \<open>
  C2. For a well-formed state whose \<open>legalMoves()\<close> list is not empty, and for every
  clock, \<open>maxDepth\<close> and \<open>timeLimitMs\<close>, \<open>searchWithTime\<close> returns, and what it returns is a
  move of that list.
\<close>

theorem search_returns_legal_move:
  assumes "wf_state s" and "legalMoves s = Return mvs s'" and "mvs \<noteq> []"
  shows "\<exists>mv. searchWithTime now s maxDepth timeLimitMs = Return (Some mv) s \<and> mv \<in> set mvs"
proof -
  from assms(1) have "owners_ok (board s)" by (simp add: wf_state_def)
  from legalMoves_list[OF this] assms(2) have mvs: "mvs = legalMoveList s" by simp
  from searchWithTime_returns[OF assms(1), of now maxDepth timeLimitMs] obtain r where
    r: "searchWithTime now s maxDepth timeLimitMs = Return r s"
    and c: "case r of None \<Rightarrow> legalMoveList s = [] | Some mv \<Rightarrow> mv \<in> set (legalMoveList s)" by blast
  from c assms(3) mvs obtain mv where "r = Some mv" "mv \<in> set mvs" by (cases r) auto
  with r show ?thesis by blast
qed

theorem search_returns_legal_move_witness:
  "\<exists>mv. searchWithTime (\<lambda>n. 0) opened 2 100 = Return (Some mv) opened \<and>
      mv \<in> set [PAWN (1, 1), PAWN (2, 0), PAWN (2, 2), WALL (1, 0, H), WALL (1, 0, V), WALL (1, 1, H)]"
proof -
  have 1: "wf_state opened"
    by (simp add: wf_state_def opened_def newGameState_def newBoard_def owners_ok_def)
  have 2: "legalMoves opened =
      Return [PAWN (1, 1), PAWN (2, 0), PAWN (2, 2), WALL (1, 0, H), WALL (1, 0, V), WALL (1, 1, H)] opened"
    by code_simp
  have 3: "[PAWN (1, 1), PAWN (2, 0), PAWN (2, 2), WALL (1, 0, H), WALL (1, 0, V), WALL (1, 1, H)] \<noteq> []"
    by simp
  from search_returns_legal_move[OF 1 2 3] show ?thesis .
qed

text \<open>
  C7. For a well-formed state, \<open>searchWithTime\<close> returns and the state it leaves is the
  state it was given: pawns, wall sets, owner maps, walls-left, side to move and the
  history log are all as before the call.
\<close>

theorem search_leaves_state:
  assumes "wf_state s"
  shows "\<exists>r. searchWithTime now s maxDepth timeLimitMs = Return r s"
  using searchWithTime_returns[OF assms, of now maxDepth timeLimitMs] by blast

theorem search_leaves_state_witness:
  "\<exists>r. searchWithTime (\<lambda>n. 0) opened 2 100 = Return r opened"
proof -
  have "wf_state opened"
    by (simp add: wf_state_def opened_def newGameState_def newBoard_def owners_ok_def)
  then show ?thesis by (rule search_leaves_state)
qed

text \<open>
  C5. For every board, every start cell and every list of goal rows, \<open>astarDistToGoal\<close>
  returns what \<open>bfsDistToGoal\<close> returns: the length of a shortest walk from the start to a
  cell on a goal row when there is one, and \<open>null\<close> when there is none.
\<close>

theorem astar_agrees_with_bfs:
  "astarDistToGoal b start goals = bfsDistToGoal b start goals
     \<and> astarDistToGoal b start goals = goalDist b start goals"
  unfolding astarDistToGoal_correct bfsDistToGoal_correct by simp

end
